theory Spec2Isabelle
  imports Main "HOL-Library.Word"
begin

unbundle bit_operations_syntax

section \<open>JavaScript values and 32-bit operators\<close>

text \<open>
  The decoder is TypeScript. Every number it handles in the byte stream is an integer, so a
  number is an \<open>int\<close>; reading a typed array outside its range gives \<open>undefined\<close>, and
  negating a non-number gives \<open>NaN\<close>. The bitwise operators convert both operands to 32-bit
  integers (\<open>undefined\<close> and \<open>NaN\<close> become 0), work on the 32-bit patterns and give back a
  signed 32-bit number; only \<open>>>>\<close> gives back an unsigned one. Shift counts are taken
  modulo 32.
\<close>

datatype jsval = Undefined | NaN | Num int

definition ToInt32 :: "jsval \<Rightarrow> 32 word" where
  "ToInt32 v = (case v of Num n \<Rightarrow> word_of_int n | _ \<Rightarrow> 0)"

definition shiftCount :: "jsval \<Rightarrow> nat" where
  "shiftCount v = unat (ToInt32 v AND 31)"

definition js_and :: "jsval \<Rightarrow> jsval \<Rightarrow> jsval" where
  "js_and a b = Num (sint (ToInt32 a AND ToInt32 b))"

definition js_or :: "jsval \<Rightarrow> jsval \<Rightarrow> jsval" where
  "js_or a b = Num (sint (ToInt32 a OR ToInt32 b))"

definition js_xor :: "jsval \<Rightarrow> jsval \<Rightarrow> jsval" where
  "js_xor a b = Num (sint (ToInt32 a XOR ToInt32 b))"

definition js_not :: "jsval \<Rightarrow> jsval" where
  "js_not a = Num (sint (NOT (ToInt32 a)))"

definition js_shl :: "jsval \<Rightarrow> jsval \<Rightarrow> jsval" where
  "js_shl a b = Num (sint (push_bit (shiftCount b) (ToInt32 a)))"

definition js_sar :: "jsval \<Rightarrow> jsval \<Rightarrow> jsval" where
  "js_sar a b = Num (sint (signed_drop_bit (shiftCount b) (ToInt32 a)))"

definition js_shr :: "jsval \<Rightarrow> jsval \<Rightarrow> jsval" where
  "js_shr a b = Num (uint (drop_bit (shiftCount b) (ToInt32 a)))"

definition js_neg :: "jsval \<Rightarrow> jsval" where
  "js_neg a = (case a of Num n \<Rightarrow> Num (- n) | _ \<Rightarrow> NaN)"

text \<open>Truthiness of a condition, loose equality \<open>==\<close> and \<open><\<close> on these values.\<close>

definition js_truthy :: "jsval \<Rightarrow> bool" where
  "js_truthy v = (case v of Num n \<Rightarrow> n \<noteq> 0 | _ \<Rightarrow> False)"

fun js_eq :: "jsval \<Rightarrow> jsval \<Rightarrow> bool" where
  "js_eq (Num a) (Num b) = (a = b)"
| "js_eq Undefined Undefined = True"
| "js_eq _ _ = False"

fun js_lt :: "jsval \<Rightarrow> jsval \<Rightarrow> bool" where
  "js_lt (Num a) (Num b) = (a < b)"
| "js_lt _ _ = False"

text \<open>
  An assignment \<open>values[i] = v\<close> to a JavaScript array: past the end the array grows, and
  the slots skipped read as \<open>undefined\<close>.
\<close>

definition array_set :: "jsval list \<Rightarrow> nat \<Rightarrow> jsval \<Rightarrow> jsval list" where
  "array_set xs i v =
     (if i < length xs then xs[i := v]
      else xs @ replicate (i - length xs) Undefined @ [v])"

section \<open>Sign extension (utils/Utils.ts)\<close>

definition signExtend24Bit :: "jsval \<Rightarrow> jsval" where
  "signExtend24Bit u =
     (if js_truthy (js_and u (Num 0x800000)) then js_or u (Num 0xff000000) else u)"

definition signExtend16Bit :: "jsval \<Rightarrow> jsval" where
  "signExtend16Bit word =
     (if js_truthy (js_and word (Num 0x8000)) then js_or word (Num 0xffff0000) else word)"

definition signExtend14Bit :: "jsval \<Rightarrow> jsval" where
  "signExtend14Bit word =
     (if js_truthy (js_and word (Num 0x2000)) then js_or word (Num 0xffffc000) else word)"

definition signExtend8Bit :: "jsval \<Rightarrow> jsval" where
  "signExtend8Bit byte =
     (if js_truthy (js_and byte (Num 0x80)) then js_or byte (Num 0xffffff00) else byte)"

definition signExtend7Bit :: "jsval \<Rightarrow> jsval" where
  "signExtend7Bit byte =
     (if js_truthy (js_and byte (Num 0x40)) then js_or byte (Num 0xffffff80) else byte)"

definition signExtend6Bit :: "jsval \<Rightarrow> jsval" where
  "signExtend6Bit byte =
     (if js_truthy (js_and byte (Num 0x20)) then js_or byte (Num 0xffffffc0) else byte)"

definition signExtend5Bit :: "jsval \<Rightarrow> jsval" where
  "signExtend5Bit byte =
     (if js_truthy (js_and byte (Num 0x10)) then js_or byte (Num 0xffffffe0) else byte)"

definition signExtend4Bit :: "jsval \<Rightarrow> jsval" where
  "signExtend4Bit nibble =
     (if js_truthy (js_and nibble (Num 0x08)) then js_or nibble (Num 0xfffffff0) else nibble)"

definition signExtend2Bit :: "jsval \<Rightarrow> jsval" where
  "signExtend2Bit byte =
     (if js_truthy (js_and byte (Num 0x02)) then js_or byte (Num 0xfffffffc) else byte)"

section \<open>The byte stream (ArrayDataStream)\<close>

text \<open>
  The stream is a cursor over a \<open>Uint8Array\<close>: the buffer holds bytes, the offsets are
  JavaScript numbers, which nothing keeps inside the buffer. The field \<open>end\<close> of the
  source is \<open>end'\<close> here.
\<close>

record ArrayDataStream =
  data :: "8 word list"
  start :: int
  end' :: int
  pos :: int
  eof :: bool

definition EOF :: jsval where
  "EOF = Num (- 1)"

definition NEWLINE_CODE :: jsval where
  "NEWLINE_CODE = Num 10"

text \<open>
  The constructor: \<open>end\<close> is the buffer's length when the argument is missing, \<open>null\<close>
  or 0 (\<open>!end\<close>). \<open>ArrayDataStream_of\<close> is \<open>new ArrayDataStream(data)\<close>.
\<close>

definition ArrayDataStream_new :: "8 word list \<Rightarrow> int \<Rightarrow> int option \<Rightarrow> ArrayDataStream" where
  "ArrayDataStream_new d st en =
     \<lparr>data = d, start = st,
      end' = (case en of None \<Rightarrow> int (length d)
              | Some e \<Rightarrow> if e = 0 then int (length d) else e),
      pos = st, eof = False\<rparr>"

definition ArrayDataStream_of :: "8 word list \<Rightarrow> ArrayDataStream" where
  "ArrayDataStream_of d = ArrayDataStream_new d 0 None"

text \<open>\<open>this.data[i]\<close>: a byte inside the buffer, \<open>undefined\<close> outside.\<close>

definition data_at :: "ArrayDataStream \<Rightarrow> int \<Rightarrow> jsval" where
  "data_at s i =
     (if 0 \<le> i \<and> i < int (length (data s)) then Num (uint (data s ! nat i)) else Undefined)"

text \<open>
  \<open>String.fromCharCode\<close> on a byte of the buffer, or on \<open>undefined\<close> (code 0). It is
  applied to nothing else here, and a byte is one \<open>char\<close>.
\<close>

definition fromCharCode :: "jsval \<Rightarrow> char" where
  "fromCharCode v = char_of (case v of Num n \<Rightarrow> n | _ \<Rightarrow> 0)"

datatype jschar = Chr char | EofChr

definition readChar :: "ArrayDataStream \<Rightarrow> jschar \<times> ArrayDataStream" where
  "readChar s =
     (if pos s < end' s then (Chr (fromCharCode (data_at s (pos s))), s\<lparr>pos := pos s + 1\<rparr>)
      else (EofChr, s\<lparr>eof := True\<rparr>))"

definition readByte :: "ArrayDataStream \<Rightarrow> jsval \<times> ArrayDataStream" where
  "readByte s =
     (if pos s < end' s then (data_at s (pos s), s\<lparr>pos := pos s + 1\<rparr>)
      else (EOF, s\<lparr>eof := True\<rparr>))"

definition readS8 :: "ArrayDataStream \<Rightarrow> jsval \<times> ArrayDataStream" where
  "readS8 s = (let (b, s1) = readByte s in (signExtend8Bit b, s1))"

definition unreadChar :: "ArrayDataStream \<Rightarrow> jschar \<Rightarrow> ArrayDataStream" where
  "unreadChar s c = s\<lparr>pos := pos s - 1\<rparr>"

definition peekChar :: "ArrayDataStream \<Rightarrow> jschar \<times> ArrayDataStream" where
  "peekChar s =
     (if pos s < end' s then (Chr (fromCharCode (data_at s (pos s))), s)
      else (EofChr, s\<lparr>eof := True\<rparr>))"

text \<open>
  \<open>readLine\<close>: the loop stops at a line feed or a 0 byte; a position outside the buffer
  reads \<open>undefined\<close>, which is neither. \<open>subarray\<close> clamps its bounds to the buffer and
  counts a negative one from the end, as the typed array does.
\<close>

function readLine_loop :: "ArrayDataStream \<Rightarrow> ArrayDataStream" where
  "readLine_loop s =
     (if pos s < end' s \<and> data_at s (pos s) \<notin> {NEWLINE_CODE, Num 0}
      then readLine_loop (s\<lparr>pos := pos s + 1\<rparr>) else s)"
  by pat_completeness auto
termination
  by (relation "measure (\<lambda>s. nat (end' s - pos s))") auto

declare readLine_loop.simps [simp del]

definition subarray :: "8 word list \<Rightarrow> int \<Rightarrow> int \<Rightarrow> 8 word list" where
  "subarray d b e =
     (let len = int (length d);
          b' = (if b < 0 then max (len + b) 0 else min b len);
          e' = (if e < 0 then max (len + e) 0 else min e len)
      in take (nat (e' - b')) (drop (nat b') d))"

definition readLine :: "ArrayDataStream \<Rightarrow> string \<times> ArrayDataStream" where
  "readLine s =
     (let s1 = readLine_loop s
      in (map (\<lambda>b. fromCharCode (Num (uint b))) (subarray (data s1) (pos s) (pos s1)), s1))"

subsection \<open>Variable-byte integers\<close>

text \<open>
  The loop of \<open>readUnsignedVB\<close>, with its variables \<open>i\<close>, \<open>shift\<close> and \<open>result\<close>: at
  most five bytes, each giving its low seven bits; a byte below 128 ends the number, which
  is returned as an unsigned 32-bit value (\<open>>>> 0\<close>). End of data, or five bytes that all
  carry the continuation bit, give 0.
\<close>

function readUnsignedVB_loop ::
  "ArrayDataStream \<Rightarrow> nat \<Rightarrow> int \<Rightarrow> jsval \<Rightarrow> jsval \<times> ArrayDataStream" where
  "readUnsignedVB_loop s i shift result =
     (if i < 5 then
        (let (b, s1) = readByte s in
         if js_eq b EOF then (Num 0, s1)
         else
           (let result1 = js_or result (js_shl (js_and b (js_not (Num 0x80))) (Num shift)) in
            if js_lt b (Num 128) then (js_shr result1 (Num 0), s1)
            else readUnsignedVB_loop s1 (i + 1) (shift + 7) result1))
      else (Num 0, s))"
  by pat_completeness auto
termination
  by (relation "measure (\<lambda>(s, i, shift, result). 5 - i)") auto

declare readUnsignedVB_loop.simps [simp del]

definition readUnsignedVB :: "ArrayDataStream \<Rightarrow> jsval \<times> ArrayDataStream" where
  "readUnsignedVB s = readUnsignedVB_loop s 0 0 (Num 0)"

definition readSignedVB :: "ArrayDataStream \<Rightarrow> jsval \<times> ArrayDataStream" where
  "readSignedVB s =
     (let (unsigned, s1) = readUnsignedVB s
      in (js_xor (js_shr unsigned (Num 1)) (js_neg (js_and unsigned (Num 1))), s1))"

subsection \<open>Strings and fixed-width integers\<close>

text \<open>
  \<open>readString(length)\<close>: \<open>new Array(length)\<close> raises a RangeError for a negative length
  or one of 2^32 and more. The characters are joined; a read at the end of the data is the
  number -1, which \<open>join\<close> writes as the two characters \<open>-1\<close>.
\<close>

datatype error = RangeError | TypeError

fun readString_loop :: "ArrayDataStream \<Rightarrow> nat \<Rightarrow> jschar list \<Rightarrow> jschar list \<times> ArrayDataStream" where
  "readString_loop s 0 chars = (chars, s)"
| "readString_loop s (Suc n) chars =
     (let (c, s1) = readChar s in readString_loop s1 n (chars @ [c]))"

definition join_chars :: "jschar list \<Rightarrow> string" where
  "join_chars chars = concat (map (\<lambda>c. case c of Chr x \<Rightarrow> [x] | EofChr \<Rightarrow> ''-1'') chars)"

definition readString :: "ArrayDataStream \<Rightarrow> int \<Rightarrow> error + (string \<times> ArrayDataStream)" where
  "readString s len =
     (if len < 0 \<or> 2 ^ 32 \<le> len then Inl RangeError
      else (let (chars, s1) = readString_loop s (nat len) [] in Inr (join_chars chars, s1)))"

definition readS16 :: "ArrayDataStream \<Rightarrow> jsval \<times> ArrayDataStream" where
  "readS16 s =
     (let (b1, s1) = readByte s; (b2, s2) = readByte s1
      in (signExtend16Bit (js_or b1 (js_shl b2 (Num 8))), s2))"

definition readU16 :: "ArrayDataStream \<Rightarrow> jsval \<times> ArrayDataStream" where
  "readU16 s =
     (let (b1, s1) = readByte s; (b2, s2) = readByte s1
      in (js_or b1 (js_shl b2 (Num 8)), s2))"

definition readU32 :: "ArrayDataStream \<Rightarrow> jsval \<times> ArrayDataStream" where
  "readU32 s =
     (let (b1, s1) = readByte s; (b2, s2) = readByte s1;
          (b3, s3) = readByte s2; (b4, s4) = readByte s3
      in (js_or (js_or (js_or b1 (js_shl b2 (Num 8))) (js_shl b3 (Num 16))) (js_shl b4 (Num 24)), s4))"

subsection \<open>Marker search\<close>

text \<open>
  The needle is a JavaScript array of character codes (\<open>FLIGHT_LOG_START_MARKER\<close> is one),
  read with \<open>needle[j]\<close>, which is \<open>undefined\<close> past its end. \<open>nextOffsetOf_inner\<close> is the
  inner \<open>for\<close> loop over \<open>j\<close> and gives the \<open>j\<close> it stops at; \<open>nextOffsetOf_loop\<close> is the
  outer loop over \<open>i\<close>.
\<close>

definition array_at :: "int list \<Rightarrow> nat \<Rightarrow> jsval" where
  "array_at xs j = (if j < length xs then Num (xs ! j) else Undefined)"

function nextOffsetOf_inner :: "ArrayDataStream \<Rightarrow> int list \<Rightarrow> int \<Rightarrow> nat \<Rightarrow> nat" where
  "nextOffsetOf_inner s needle i j =
     (if j < length needle \<and> js_eq (data_at s (i + int j)) (array_at needle j)
      then nextOffsetOf_inner s needle i (j + 1) else j)"
  by pat_completeness auto
termination
  by (relation "measure (\<lambda>(s, needle, i, j). length needle - j)") auto

declare nextOffsetOf_inner.simps [simp del]

function nextOffsetOf_loop :: "ArrayDataStream \<Rightarrow> int list \<Rightarrow> int \<Rightarrow> int" where
  "nextOffsetOf_loop s needle i =
     (if i \<le> end' s - int (length needle) then
        (if js_eq (data_at s i) (array_at needle 0)
            \<and> nextOffsetOf_inner s needle i 1 = length needle
         then i else nextOffsetOf_loop s needle (i + 1))
      else - 1)"
  by pat_completeness auto
termination
  by (relation "measure (\<lambda>(s, needle, i). nat (end' s - int (length needle) - i + 1))") auto

declare nextOffsetOf_loop.simps [simp del]

definition nextOffsetOf :: "ArrayDataStream \<Rightarrow> int list \<Rightarrow> int" where
  "nextOffsetOf s needle = nextOffsetOf_loop s needle (pos s)"

lemma nextOffsetOf_inner_ge: "j \<le> nextOffsetOf_inner s needle i j"
proof (induction s needle i j rule: nextOffsetOf_inner.induct)
  case (1 s needle i j)
  show ?case
  proof (cases "j < length needle \<and> js_eq (data_at s (i + int j)) (array_at needle j)")
    case True
    then have "nextOffsetOf_inner s needle i j = nextOffsetOf_inner s needle i (j + 1)"
      by (subst nextOffsetOf_inner.simps) simp
    with 1 True show ?thesis by simp
  next
    case False
    then have "nextOffsetOf_inner s needle i j = j"
      by (subst nextOffsetOf_inner.simps) auto
    then show ?thesis by simp
  qed
qed

lemma nextOffsetOf_loop_found:
  "nextOffsetOf_loop s needle i \<noteq> - 1 \<Longrightarrow>
     i \<le> nextOffsetOf_loop s needle i
     \<and> nextOffsetOf_loop s needle i \<le> end' s - int (length needle)
     \<and> needle \<noteq> []"
proof (induction s needle i rule: nextOffsetOf_loop.induct)
  case (1 s needle i)
  show ?case
  proof (cases "i \<le> end' s - int (length needle)")
    case False
    then have "nextOffsetOf_loop s needle i = - 1"
      by (subst nextOffsetOf_loop.simps) simp
    with 1 show ?thesis by simp
  next
    case inside: True
    show ?thesis
    proof (cases "js_eq (data_at s i) (array_at needle 0)
                  \<and> nextOffsetOf_inner s needle i 1 = length needle")
      case True
      then have r: "nextOffsetOf_loop s needle i = i"
        using inside by (subst nextOffsetOf_loop.simps) simp
      have "1 \<le> length needle"
        using True nextOffsetOf_inner_ge [of 1 s needle i] by simp
      then show ?thesis using r inside by auto
    next
      case False
      then have r: "nextOffsetOf_loop s needle i = nextOffsetOf_loop s needle (i + 1)"
        using inside by (subst nextOffsetOf_loop.simps) auto
      with 1 inside False show ?thesis by auto
    qed
  qed
qed

text \<open>
  \<open>allIndicesOf\<close>: the \<open>while (true)\<close> loop, which pushes each offset found, moves
  \<open>pos\<close> past the match and, when nothing more is found, pushes \<open>end\<close> and returns.
\<close>

function allIndicesOf_loop ::
  "ArrayDataStream \<Rightarrow> int list \<Rightarrow> int list \<Rightarrow> int list \<times> ArrayDataStream" where
  "allIndicesOf_loop s marker indices =
     (let index = nextOffsetOf s marker in
      if index = - 1 then (indices @ [end' s], s)
      else allIndicesOf_loop (s\<lparr>pos := index + int (length marker)\<rparr>) marker (indices @ [index]))"
  by pat_completeness auto
termination
proof (relation "measure (\<lambda>(s, marker, indices). nat (end' s - pos s))", goal_cases)
  case 1
  show ?case by simp
next
  case (2 s marker indices index)
  then have "nextOffsetOf_loop s marker (pos s) \<noteq> - 1"
    by (simp add: nextOffsetOf_def)
  from nextOffsetOf_loop_found [OF this] 2 show ?case
    by (cases marker) (auto simp: nextOffsetOf_def)
qed

declare allIndicesOf_loop.simps [simp del]

definition allIndicesOf :: "ArrayDataStream \<Rightarrow> int list \<Rightarrow> int list \<times> ArrayDataStream" where
  "allIndicesOf s marker = allIndicesOf_loop s marker []"

subsection \<open>Tagged group readers\<close>

text \<open>
  The fourth layout of \<open>readTag2_3S32\<close> and of \<open>readTag2_3SVariable\<close> is the same text in
  both methods: a loop over the three fields, each of 8, 16, 24 or 32 bits as the low two
  bits of \<open>leadByte\<close> say, \<open>leadByte\<close> being shifted right by two after each field.
\<close>

function readTag2_3_wide ::
  "ArrayDataStream \<Rightarrow> jsval \<Rightarrow> nat \<Rightarrow> jsval list \<Rightarrow> jsval list \<times> ArrayDataStream" where
  "readTag2_3_wide s leadByte i values =
     (if i < 3 then
        (let sel = js_and leadByte (Num 0x03) in
         if sel = Num 0 then
           (let (byte1, s1) = readByte s
            in readTag2_3_wide s1 (js_sar leadByte (Num 2)) (i + 1)
                 (array_set values i (signExtend8Bit byte1)))
         else if sel = Num 1 then
           (let (byte1, s1) = readByte s; (byte2, s2) = readByte s1
            in readTag2_3_wide s2 (js_sar leadByte (Num 2)) (i + 1)
                 (array_set values i (signExtend16Bit (js_or byte1 (js_shl byte2 (Num 8))))))
         else if sel = Num 2 then
           (let (byte1, s1) = readByte s; (byte2, s2) = readByte s1; (byte3, s3) = readByte s2
            in readTag2_3_wide s3 (js_sar leadByte (Num 2)) (i + 1)
                 (array_set values i
                    (signExtend24Bit
                       (js_or (js_or byte1 (js_shl byte2 (Num 8))) (js_shl byte3 (Num 16))))))
         else if sel = Num 3 then
           (let (byte1, s1) = readByte s; (byte2, s2) = readByte s1;
                (byte3, s3) = readByte s2; (byte4, s4) = readByte s3
            in readTag2_3_wide s4 (js_sar leadByte (Num 2)) (i + 1)
                 (array_set values i
                    (js_or (js_or (js_or byte1 (js_shl byte2 (Num 8))) (js_shl byte3 (Num 16)))
                       (js_shl byte4 (Num 24)))))
         else readTag2_3_wide s (js_sar leadByte (Num 2)) (i + 1) values)
      else (values, s))"
  by pat_completeness auto
termination
  by (relation "measure (\<lambda>(s, leadByte, i, values). 3 - i)") auto

declare readTag2_3_wide.simps [simp del]

definition readTag2_3S32 :: "ArrayDataStream \<Rightarrow> jsval list \<Rightarrow> jsval list \<times> ArrayDataStream" where
  "readTag2_3S32 s values =
     (let (leadByte, s1) = readByte s; sel = js_sar leadByte (Num 6) in
      if sel = Num 0 then
        (let values1 = array_set values 0 (signExtend2Bit (js_and (js_sar leadByte (Num 4)) (Num 0x03)));
             values2 = array_set values1 1 (signExtend2Bit (js_and (js_sar leadByte (Num 2)) (Num 0x03)));
             values3 = array_set values2 2 (signExtend2Bit (js_and leadByte (Num 0x03)))
         in (values3, s1))
      else if sel = Num 1 then
        (let values1 = array_set values 0 (signExtend4Bit (js_and leadByte (Num 0x0f)));
             (leadByte1, s2) = readByte s1;
             values2 = array_set values1 1 (signExtend4Bit (js_sar leadByte1 (Num 4)));
             values3 = array_set values2 2 (signExtend4Bit (js_and leadByte1 (Num 0x0f)))
         in (values3, s2))
      else if sel = Num 2 then
        (let values1 = array_set values 0 (signExtend6Bit (js_and leadByte (Num 0x3f)));
             (leadByte1, s2) = readByte s1;
             values2 = array_set values1 1 (signExtend6Bit (js_and leadByte1 (Num 0x3f)));
             (leadByte2, s3) = readByte s2;
             values3 = array_set values2 2 (signExtend6Bit (js_and leadByte2 (Num 0x3f)))
         in (values3, s3))
      else if sel = Num 3 then readTag2_3_wide s1 leadByte 0 values
      else (values, s1))"

text \<open>
  \<open>readTag2_3SVariable\<close>. In the third layout (selector 2) the source assigns
  \<open>values[1]\<close> twice and \<open>values[0]\<close> never, and builds the second assignment from
  \<open>leadByte2\<close> alone; the model does the same.
\<close>

definition readTag2_3SVariable :: "ArrayDataStream \<Rightarrow> jsval list \<Rightarrow> jsval list \<times> ArrayDataStream" where
  "readTag2_3SVariable s values =
     (let (leadByte, s1) = readByte s; sel = js_sar leadByte (Num 6) in
      if sel = Num 0 then
        (let values1 = array_set values 0 (signExtend2Bit (js_and (js_sar leadByte (Num 4)) (Num 0x03)));
             values2 = array_set values1 1 (signExtend2Bit (js_and (js_sar leadByte (Num 2)) (Num 0x03)));
             values3 = array_set values2 2 (signExtend2Bit (js_and leadByte (Num 0x03)))
         in (values3, s1))
      else if sel = Num 1 then
        (let values1 = array_set values 0 (signExtend5Bit (js_sar (js_and leadByte (Num 0x3e)) (Num 1)));
             (leadByte2, s2) = readByte s1;
             values2 = array_set values1 1
               (signExtend5Bit
                  (js_or (js_shl (js_and leadByte (Num 0x01)) (Num 5))
                     (js_sar (js_and leadByte2 (Num 0x0f)) (Num 4))));
             values3 = array_set values2 2 (signExtend4Bit (js_and leadByte2 (Num 0x0f)))
         in (values3, s2))
      else if sel = Num 2 then
        (let (leadByte2, s2) = readByte s1;
             values1 = array_set values 1
               (signExtend8Bit
                  (js_or (js_shl (js_and leadByte (Num 0x3f)) (Num 2))
                     (js_sar (js_and leadByte2 (Num 0xc0)) (Num 6))));
             (leadByte3, s3) = readByte s2;
             values2 = array_set values1 1
               (signExtend7Bit
                  (js_or (js_shl (js_and leadByte2 (Num 0x3f)) (Num 1))
                     (js_sar (js_and leadByte2 (Num 0x80)) (Num 7))));
             values3 = array_set values2 2 (signExtend7Bit (js_and leadByte3 (Num 0x7f)))
         in (values3, s3))
      else if sel = Num 3 then readTag2_3_wide s1 leadByte 0 values
      else (values, s1))"

text \<open>
  \<open>readTag8_4S16_v1\<close>: one selector byte, two bits for each of four fields. A 4-bit field
  shares its byte with the next field, so that case advances \<open>i\<close> and the selector itself
  before the loop does.
\<close>

function readTag8_4S16_v1_loop ::
  "ArrayDataStream \<Rightarrow> jsval \<Rightarrow> nat \<Rightarrow> jsval list \<Rightarrow> jsval list \<times> ArrayDataStream" where
  "readTag8_4S16_v1_loop s selector i values =
     (if i < 4 then
        (let sel = js_and selector (Num 0x03) in
         if sel = Num 0 then
           readTag8_4S16_v1_loop s (js_sar selector (Num 2)) (i + 1) (array_set values i (Num 0))
         else if sel = Num 1 then
           (let (combinedChar, s1) = readByte s;
                values1 = array_set values i (signExtend4Bit (js_and combinedChar (Num 0x0f)));
                i1 = i + 1;
                selector1 = js_sar selector (Num 2);
                values2 = array_set values1 i1 (signExtend4Bit (js_sar combinedChar (Num 4)))
            in readTag8_4S16_v1_loop s1 (js_sar selector1 (Num 2)) (i1 + 1) values2)
         else if sel = Num 2 then
           (let (b, s1) = readByte s
            in readTag8_4S16_v1_loop s1 (js_sar selector (Num 2)) (i + 1)
                 (array_set values i (signExtend8Bit b)))
         else if sel = Num 3 then
           (let (char1, s1) = readByte s; (char2, s2) = readByte s1
            in readTag8_4S16_v1_loop s2 (js_sar selector (Num 2)) (i + 1)
                 (array_set values i (signExtend16Bit (js_or char1 (js_shl char2 (Num 8))))))
         else readTag8_4S16_v1_loop s (js_sar selector (Num 2)) (i + 1) values)
      else (values, s))"
  by pat_completeness auto
termination
  by (relation "measure (\<lambda>(s, selector, i, values). 4 - i)") auto

declare readTag8_4S16_v1_loop.simps [simp del]

definition readTag8_4S16_v1 :: "ArrayDataStream \<Rightarrow> jsval list \<Rightarrow> jsval list \<times> ArrayDataStream" where
  "readTag8_4S16_v1 s values =
     (let (selector, s1) = readByte s in readTag8_4S16_v1_loop s1 selector 0 values)"

text \<open>
  \<open>readTag8_4S16_v2\<close>: the fields are packed nibble by nibble; \<open>buffer\<close> holds the byte
  whose low nibble is still unread when \<open>nibbleIndex\<close> is 1. \<open>buffer\<close> is declared without
  a value, so it starts as \<open>undefined\<close>.
\<close>

function readTag8_4S16_v2_loop ::
  "ArrayDataStream \<Rightarrow> jsval \<Rightarrow> nat \<Rightarrow> jsval list \<Rightarrow> jsval \<Rightarrow> nat
     \<Rightarrow> jsval list \<times> ArrayDataStream" where
  "readTag8_4S16_v2_loop s selector i values buffer nibbleIndex =
     (if i < 4 then
        (let sel = js_and selector (Num 0x03) in
         if sel = Num 0 then
           readTag8_4S16_v2_loop s (js_sar selector (Num 2)) (i + 1)
             (array_set values i (Num 0)) buffer nibbleIndex
         else if sel = Num 1 then
           (if nibbleIndex = 0 then
              (let (buffer1, s1) = readByte s
               in readTag8_4S16_v2_loop s1 (js_sar selector (Num 2)) (i + 1)
                    (array_set values i (signExtend4Bit (js_sar buffer1 (Num 4)))) buffer1 1)
            else
              readTag8_4S16_v2_loop s (js_sar selector (Num 2)) (i + 1)
                (array_set values i (signExtend4Bit (js_and buffer (Num 0x0f)))) buffer 0)
         else if sel = Num 2 then
           (if nibbleIndex = 0 then
              (let (b, s1) = readByte s
               in readTag8_4S16_v2_loop s1 (js_sar selector (Num 2)) (i + 1)
                    (array_set values i (signExtend8Bit b)) buffer nibbleIndex)
            else
              (let char1 = js_shl (js_and buffer (Num 0x0f)) (Num 4);
                   (buffer1, s1) = readByte s;
                   char1' = js_or char1 (js_sar buffer1 (Num 4))
               in readTag8_4S16_v2_loop s1 (js_sar selector (Num 2)) (i + 1)
                    (array_set values i (signExtend8Bit char1')) buffer1 nibbleIndex))
         else if sel = Num 3 then
           (if nibbleIndex = 0 then
              (let (char1, s1) = readByte s; (char2, s2) = readByte s1
               in readTag8_4S16_v2_loop s2 (js_sar selector (Num 2)) (i + 1)
                    (array_set values i (signExtend16Bit (js_or (js_shl char1 (Num 8)) char2)))
                    buffer nibbleIndex)
            else
              (let (char1, s1) = readByte s; (char2, s2) = readByte s1
               in readTag8_4S16_v2_loop s2 (js_sar selector (Num 2)) (i + 1)
                    (array_set values i
                       (signExtend16Bit
                          (js_or (js_or (js_shl (js_and buffer (Num 0x0f)) (Num 12))
                                    (js_shl char1 (Num 4)))
                             (js_sar char2 (Num 4)))))
                    char2 nibbleIndex))
         else readTag8_4S16_v2_loop s (js_sar selector (Num 2)) (i + 1) values buffer nibbleIndex)
      else (values, s))"
  by pat_completeness auto
termination
  by (relation "measure (\<lambda>(s, selector, i, values, buffer, nibbleIndex). 4 - i)") auto

declare readTag8_4S16_v2_loop.simps [simp del]

definition readTag8_4S16_v2 :: "ArrayDataStream \<Rightarrow> jsval list \<Rightarrow> jsval list \<times> ArrayDataStream" where
  "readTag8_4S16_v2 s values =
     (let (selector, s1) = readByte s in readTag8_4S16_v2_loop s1 selector 0 values Undefined 0)"

text \<open>
  \<open>readTag8_8SVB\<close>: one signed variable-byte value when \<open>valueCount\<close> is 1, else a header
  byte whose bit \<open>i\<close> says whether slot \<open>i\<close> of eight holds one or is 0.
\<close>

function readTag8_8SVB_loop ::
  "ArrayDataStream \<Rightarrow> jsval \<Rightarrow> nat \<Rightarrow> jsval list \<Rightarrow> jsval list \<times> ArrayDataStream" where
  "readTag8_8SVB_loop s header i values =
     (if i < 8 then
        (if js_truthy (js_and header (Num 0x01)) then
           (let (v, s1) = readSignedVB s
            in readTag8_8SVB_loop s1 (js_sar header (Num 1)) (i + 1) (array_set values i v))
         else readTag8_8SVB_loop s (js_sar header (Num 1)) (i + 1) (array_set values i (Num 0)))
      else (values, s))"
  by pat_completeness auto
termination
  by (relation "measure (\<lambda>(s, header, i, values). 8 - i)") auto

declare readTag8_8SVB_loop.simps [simp del]

definition readTag8_8SVB ::
  "ArrayDataStream \<Rightarrow> jsval list \<Rightarrow> int \<Rightarrow> jsval list \<times> ArrayDataStream" where
  "readTag8_8SVB s values valueCount =
     (if valueCount = 1 then
        (let (v, s1) = readSignedVB s in (array_set values 0 v, s1))
      else
        (let (header, s1) = readByte s in readTag8_8SVB_loop s1 header 0 values))"

section \<open>Sign extension is the two's-complement reading\<close>

lemma int_or_minus_exp:
  fixes v :: int
  assumes "0 \<le> v" "v < 2 ^ w"
  shows "v OR (- (2 ^ w)) = v - 2 ^ w"
proof -
  have tb: "take_bit w v = v"
    using assms by (simp add: take_bit_int_eq_self)
  have nb: "\<not> bit v n \<or> \<not> bit (NOT (mask w :: int)) n" for n
  proof (cases "n < w")
    case True
    then show ?thesis by (simp add: bit_simps)
  next
    case False
    have "bit v n = bit (take_bit w v) n" by (simp add: tb)
    also have "\<dots> = False" using False by (simp add: bit_simps)
    finally show ?thesis by simp
  qed
  have "v + NOT (mask w) = v OR NOT (mask w)"
    by (rule disjunctive_add) (rule nb)
  moreover have "NOT (mask w :: int) = - (2 ^ w)"
    by (simp add: minus_exp_eq_not_mask)
  ultimately show ?thesis by simp
qed

lemma js_sign_test:
  fixes v :: int
  assumes "0 \<le> v" "n < 31"
  shows "(sint ((word_of_int v :: 32 word) AND word_of_int (2 ^ n)) \<noteq> 0) = bit v n"
proof -
  define x where "x = v AND 2 ^ n"
  have x0: "0 \<le> x" using assms by (simp add: x_def)
  have "x \<le> 2 ^ n" unfolding x_def by (rule AND_upper2) simp
  also have "(2::int) ^ n < 2 ^ 31" by (rule power_strict_increasing) (use assms in simp_all)
  finally have x1: "x < 2 ^ 31" .
  have "sint ((word_of_int v :: 32 word) AND word_of_int (2 ^ n)) = sint (word_of_int x :: 32 word)"
    by (simp only: x_def word_wi_log_defs)
  also have "\<dots> = signed_take_bit 31 x" by (simp add: sint_sbintrunc')
  also have "\<dots> = x" using x0 x1 by (simp add: signed_take_bit_int_eq_self)
  finally have "(sint ((word_of_int v :: 32 word) AND word_of_int (2 ^ n)) \<noteq> 0) = (x \<noteq> 0)" by simp
  also have "\<dots> = bit v n" by (simp add: x_def and_exp_eq_0_iff_not_bit)
  finally show ?thesis .
qed

lemma js_sign_fill:
  fixes v :: int
  assumes "0 \<le> v" "v < 2 ^ w" "w < 32"
  shows "sint ((word_of_int v :: 32 word) OR word_of_int (2 ^ 32 - 2 ^ w)) = v - 2 ^ w"
proof -
  have "(2::int) ^ w \<le> 2 ^ 31" by (rule power_increasing) (use assms in simp_all)
  then have r: "- (2 ^ 31) \<le> v - 2 ^ w" "v - 2 ^ w < 2 ^ 31" using assms by simp_all
  have e: "(word_of_int (2 ^ 32 - 2 ^ w) :: 32 word) = word_of_int (- (2 ^ w))"
    by simp
  have "sint ((word_of_int v :: 32 word) OR word_of_int (2 ^ 32 - 2 ^ w)) = sint (word_of_int (v - 2 ^ w) :: 32 word)"
    unfolding e by (simp only: word_wi_log_defs int_or_minus_exp [OF assms(1,2)])
  also have "\<dots> = signed_take_bit 31 (v - 2 ^ w)" by (simp only: sint_sbintrunc') simp
  also have "\<dots> = v - 2 ^ w" using r by (simp add: signed_take_bit_int_eq_self)
  finally show ?thesis .
qed

lemma twos_complement_int:
  fixes v :: int
  assumes "0 \<le> v" "v < 2 ^ Suc n"
  shows "signed_take_bit n v = (if bit v n then v - 2 ^ Suc n else v)"
  using assms by (simp add: signed_take_bit_eq_take_bit_minus take_bit_int_eq_self)

lemma signExtend24Bit_Num:
  assumes "0 \<le> v" "v < 2 ^ 24"
  shows "signExtend24Bit (Num v) = Num (sint (word_of_int v :: 24 word))"
proof -
  have t: "js_truthy (js_and (Num v) (Num 0x800000)) = bit v 23"
    using js_sign_test [of v 23] assms by (simp add: js_truthy_def js_and_def ToInt32_def)
  have f: "js_or (Num v) (Num 0xff000000) = Num (v - 2 ^ 24)"
    using js_sign_fill [of v 24] assms by (simp add: js_or_def ToInt32_def)
  have s: "sint (word_of_int v :: 24 word) = (if bit v 23 then v - 2 ^ 24 else v)"
    using twos_complement_int [of v 23] assms by (simp add: sint_sbintrunc')
  show ?thesis by (simp add: signExtend24Bit_def t f s)
qed

lemma signExtend16Bit_Num:
  assumes "0 \<le> v" "v < 2 ^ 16"
  shows "signExtend16Bit (Num v) = Num (sint (word_of_int v :: 16 word))"
proof -
  have t: "js_truthy (js_and (Num v) (Num 0x8000)) = bit v 15"
    using js_sign_test [of v 15] assms by (simp add: js_truthy_def js_and_def ToInt32_def)
  have f: "js_or (Num v) (Num 0xffff0000) = Num (v - 2 ^ 16)"
    using js_sign_fill [of v 16] assms by (simp add: js_or_def ToInt32_def)
  have s: "sint (word_of_int v :: 16 word) = (if bit v 15 then v - 2 ^ 16 else v)"
    using twos_complement_int [of v 15] assms by (simp add: sint_sbintrunc')
  show ?thesis by (simp add: signExtend16Bit_def t f s)
qed

lemma signExtend14Bit_Num:
  assumes "0 \<le> v" "v < 2 ^ 14"
  shows "signExtend14Bit (Num v) = Num (sint (word_of_int v :: 14 word))"
proof -
  have t: "js_truthy (js_and (Num v) (Num 0x2000)) = bit v 13"
    using js_sign_test [of v 13] assms by (simp add: js_truthy_def js_and_def ToInt32_def)
  have f: "js_or (Num v) (Num 0xffffc000) = Num (v - 2 ^ 14)"
    using js_sign_fill [of v 14] assms by (simp add: js_or_def ToInt32_def)
  have s: "sint (word_of_int v :: 14 word) = (if bit v 13 then v - 2 ^ 14 else v)"
    using twos_complement_int [of v 13] assms by (simp add: sint_sbintrunc')
  show ?thesis by (simp add: signExtend14Bit_def t f s)
qed

lemma signExtend8Bit_Num:
  assumes "0 \<le> v" "v < 2 ^ 8"
  shows "signExtend8Bit (Num v) = Num (sint (word_of_int v :: 8 word))"
proof -
  have t: "js_truthy (js_and (Num v) (Num 0x80)) = bit v 7"
    using js_sign_test [of v 7] assms by (simp add: js_truthy_def js_and_def ToInt32_def)
  have f: "js_or (Num v) (Num 0xffffff00) = Num (v - 2 ^ 8)"
    using js_sign_fill [of v 8] assms by (simp add: js_or_def ToInt32_def)
  have s: "sint (word_of_int v :: 8 word) = (if bit v 7 then v - 2 ^ 8 else v)"
    using twos_complement_int [of v 7] assms by (simp add: sint_sbintrunc')
  show ?thesis by (simp add: signExtend8Bit_def t f s)
qed

lemma signExtend7Bit_Num:
  assumes "0 \<le> v" "v < 2 ^ 7"
  shows "signExtend7Bit (Num v) = Num (sint (word_of_int v :: 7 word))"
proof -
  have t: "js_truthy (js_and (Num v) (Num 0x40)) = bit v 6"
    using js_sign_test [of v 6] assms by (simp add: js_truthy_def js_and_def ToInt32_def)
  have f: "js_or (Num v) (Num 0xffffff80) = Num (v - 2 ^ 7)"
    using js_sign_fill [of v 7] assms by (simp add: js_or_def ToInt32_def)
  have s: "sint (word_of_int v :: 7 word) = (if bit v 6 then v - 2 ^ 7 else v)"
    using twos_complement_int [of v 6] assms by (simp add: sint_sbintrunc')
  show ?thesis by (simp add: signExtend7Bit_def t f s)
qed

lemma signExtend6Bit_Num:
  assumes "0 \<le> v" "v < 2 ^ 6"
  shows "signExtend6Bit (Num v) = Num (sint (word_of_int v :: 6 word))"
proof -
  have t: "js_truthy (js_and (Num v) (Num 0x20)) = bit v 5"
    using js_sign_test [of v 5] assms by (simp add: js_truthy_def js_and_def ToInt32_def)
  have f: "js_or (Num v) (Num 0xffffffc0) = Num (v - 2 ^ 6)"
    using js_sign_fill [of v 6] assms by (simp add: js_or_def ToInt32_def)
  have s: "sint (word_of_int v :: 6 word) = (if bit v 5 then v - 2 ^ 6 else v)"
    using twos_complement_int [of v 5] assms by (simp add: sint_sbintrunc')
  show ?thesis by (simp add: signExtend6Bit_def t f s)
qed

lemma signExtend5Bit_Num:
  assumes "0 \<le> v" "v < 2 ^ 5"
  shows "signExtend5Bit (Num v) = Num (sint (word_of_int v :: 5 word))"
proof -
  have t: "js_truthy (js_and (Num v) (Num 0x10)) = bit v 4"
    using js_sign_test [of v 4] assms by (simp add: js_truthy_def js_and_def ToInt32_def)
  have f: "js_or (Num v) (Num 0xffffffe0) = Num (v - 2 ^ 5)"
    using js_sign_fill [of v 5] assms by (simp add: js_or_def ToInt32_def)
  have s: "sint (word_of_int v :: 5 word) = (if bit v 4 then v - 2 ^ 5 else v)"
    using twos_complement_int [of v 4] assms by (simp add: sint_sbintrunc')
  show ?thesis by (simp add: signExtend5Bit_def t f s)
qed

lemma signExtend4Bit_Num:
  assumes "0 \<le> v" "v < 2 ^ 4"
  shows "signExtend4Bit (Num v) = Num (sint (word_of_int v :: 4 word))"
proof -
  have t: "js_truthy (js_and (Num v) (Num 0x08)) = bit v 3"
    using js_sign_test [of v 3] assms by (simp add: js_truthy_def js_and_def ToInt32_def)
  have f: "js_or (Num v) (Num 0xfffffff0) = Num (v - 2 ^ 4)"
    using js_sign_fill [of v 4] assms by (simp add: js_or_def ToInt32_def)
  have s: "sint (word_of_int v :: 4 word) = (if bit v 3 then v - 2 ^ 4 else v)"
    using twos_complement_int [of v 3] assms by (simp add: sint_sbintrunc')
  show ?thesis by (simp add: signExtend4Bit_def t f s)
qed

lemma signExtend2Bit_Num:
  assumes "0 \<le> v" "v < 2 ^ 2"
  shows "signExtend2Bit (Num v) = Num (sint (word_of_int v :: 2 word))"
proof -
  have t: "js_truthy (js_and (Num v) (Num 0x02)) = bit v 1"
    using js_sign_test [of v 1] assms by (simp add: js_truthy_def js_and_def ToInt32_def)
  have f: "js_or (Num v) (Num 0xfffffffc) = Num (v - 2 ^ 2)"
    using js_sign_fill [of v 2] assms by (simp add: js_or_def ToInt32_def)
  have s: "sint (word_of_int v :: 2 word) = (if bit v 1 then v - 2 ^ 2 else v)"
    using twos_complement_int [of v 1] assms by (simp add: sint_sbintrunc')
  show ?thesis by (simp add: signExtend2Bit_def t f s)
qed

text \<open>
  Claim C2. For each width \<open>w\<close> of 2, 4, 5, 6, 7, 8, 14, 16 and 24 and each value \<open>v\<close>
  with \<open>0 \<le> v < 2^w\<close>, the helper for that width returns the number that the \<open>w\<close>-bit
  pattern of \<open>v\<close> denotes in two's complement (\<open>sint\<close> of the \<open>w\<close>-bit word), which is the
  value of the widened 32-bit signed integer.
\<close>

theorem signExtend_twos_complement:
  "(0 \<le> v2 \<and> v2 < 2 ^ 2 \<longrightarrow> signExtend2Bit (Num v2) = Num (sint (word_of_int v2 :: 2 word)))
   \<and> (0 \<le> v4 \<and> v4 < 2 ^ 4 \<longrightarrow> signExtend4Bit (Num v4) = Num (sint (word_of_int v4 :: 4 word)))
   \<and> (0 \<le> v5 \<and> v5 < 2 ^ 5 \<longrightarrow> signExtend5Bit (Num v5) = Num (sint (word_of_int v5 :: 5 word)))
   \<and> (0 \<le> v6 \<and> v6 < 2 ^ 6 \<longrightarrow> signExtend6Bit (Num v6) = Num (sint (word_of_int v6 :: 6 word)))
   \<and> (0 \<le> v7 \<and> v7 < 2 ^ 7 \<longrightarrow> signExtend7Bit (Num v7) = Num (sint (word_of_int v7 :: 7 word)))
   \<and> (0 \<le> v8 \<and> v8 < 2 ^ 8 \<longrightarrow> signExtend8Bit (Num v8) = Num (sint (word_of_int v8 :: 8 word)))
   \<and> (0 \<le> v14 \<and> v14 < 2 ^ 14 \<longrightarrow> signExtend14Bit (Num v14) = Num (sint (word_of_int v14 :: 14 word)))
   \<and> (0 \<le> v16 \<and> v16 < 2 ^ 16 \<longrightarrow> signExtend16Bit (Num v16) = Num (sint (word_of_int v16 :: 16 word)))
   \<and> (0 \<le> v24 \<and> v24 < 2 ^ 24 \<longrightarrow> signExtend24Bit (Num v24) = Num (sint (word_of_int v24 :: 24 word)))"
  using signExtend2Bit_Num [of v2] signExtend4Bit_Num [of v4] signExtend5Bit_Num [of v5]
    signExtend6Bit_Num [of v6] signExtend7Bit_Num [of v7] signExtend8Bit_Num [of v8]
    signExtend14Bit_Num [of v14] signExtend16Bit_Num [of v16] signExtend24Bit_Num [of v24]
  by blast

theorem signExtend_twos_complement_witness:
  "signExtend2Bit (Num 3) = Num (- 1)
   \<and> signExtend4Bit (Num 9) = Num (- 7)
   \<and> signExtend5Bit (Num 17) = Num (- 15)
   \<and> signExtend6Bit (Num 33) = Num (- 31)
   \<and> signExtend7Bit (Num 100) = Num (- 28)
   \<and> signExtend8Bit (Num 200) = Num (- 56)
   \<and> signExtend14Bit (Num 16383) = Num (- 1)
   \<and> signExtend16Bit (Num 32768) = Num (- 32768)
   \<and> signExtend24Bit (Num 8388609) = Num (- 8388607)"
  using signExtend_twos_complement [of 3 9 17 33 100 200 16383 32768 8388609]
  by simp

section \<open>Variable-byte integers: round trip\<close>

text \<open>
  Modelled from the spec: the reference encoder, which is not code of this repository (the
  flight controller writes the log). Seven data bits per byte, low bits first, the
  continuation bit 0x80 on every byte but the last; ZigZag folds the sign into bit 0.
\<close>

function encodeVB :: "32 word \<Rightarrow> 8 word list" where
  "encodeVB v = (if 127 < v then ucast (v OR 0x80) # encodeVB (drop_bit 7 v) else [ucast v])"
  by pat_completeness auto
termination
proof (relation "measure unat", goal_cases)
  case 1
  show ?case by simp
next
  case (2 v)
  then have "0 < unat v" by (simp add: word_less_nat_alt)
  then have "unat v div 2 ^ 7 < unat v" by simp
  then show ?case by (simp only: unat_drop_bit_eq in_measure) (simp add: drop_bit_eq_div)
qed

declare encodeVB.simps [simp del]

definition encodeZigZag :: "32 word \<Rightarrow> 32 word" where
  "encodeZigZag v = push_bit 1 v XOR signed_drop_bit 31 v"

text \<open>The bytes \<open>bs\<close> lie in the stream from offset \<open>p\<close> on, before \<open>end\<close>.\<close>

fun bytes_at :: "ArrayDataStream \<Rightarrow> int \<Rightarrow> 8 word list \<Rightarrow> bool" where
  "bytes_at s p [] = True"
| "bytes_at s p (b # bs) = (p < end' s \<and> data_at s p = Num (uint b) \<and> bytes_at s (p + 1) bs)"

lemma bytes_at_pos_update [simp]: "bytes_at (s\<lparr>pos := q\<rparr>) p bs = bytes_at s p bs"
  by (induction bs arbitrary: p) (simp_all add: data_at_def)

lemma ToInt32_sint [simp]: "ToInt32 (Num (sint (r :: 32 word))) = r"
  by (simp add: ToInt32_def)

lemma ToInt32_uint [simp]: "ToInt32 (Num (uint (r :: 32 word))) = r"
  by (simp add: ToInt32_def)

lemma ToInt32_byte [simp]: "ToInt32 (Num (uint (b :: 8 word))) = ucast b"
  by (simp add: ToInt32_def)

lemma byte_not_EOF [simp]: "\<not> js_eq (Num (uint (b :: 8 word))) EOF"
proof -
  have "uint b \<noteq> - 1" using uint_ge_0 [of b] by linarith
  then show ?thesis by (simp add: EOF_def)
qed

lemma bit_128_int: "bit (128 :: int) n = (n = 7)"
proof -
  have "bit ((2::int) ^ 7) n = (n = 7)" by (subst bit_exp_iff) simp
  then show ?thesis by simp
qed

lemma byte_lt_128_bit:
  fixes b :: "8 word"
  shows "(b < 128) = (\<not> bit b 7)"
proof
  assume "b < 128"
  then have "b < 2 ^ 7" by simp
  then have "take_bit 7 b = b" by (simp add: take_bit_eq_mask less_mask_eq)
  then have "bit b 7 = bit (take_bit 7 b) 7" by simp
  then show "\<not> bit b 7" by (simp add: bit_simps)
next
  assume nb: "\<not> bit b 7"
  have "take_bit 7 b = b"
  proof (rule bit_eqI)
    fix n assume "possible_bit TYPE(8 word) n"
    then have "n < 8" by (simp add: possible_bit_word)
    then have "n < 7 \<or> n = 7" by arith
    then show "bit (take_bit 7 b) n = bit b n" using nb by (auto simp: bit_simps)
  qed
  then have "b = b AND mask 7" by (simp add: take_bit_eq_mask)
  moreover have "b AND mask 7 < 2 ^ 7" by (rule and_mask_less') simp
  ultimately have "b < 2 ^ 7" by simp
  then show "b < 128" by simp
qed

lemma small_take_bit:
  fixes v :: "32 word"
  assumes "\<not> 127 < v"
  shows "take_bit 7 v = v"
proof -
  have "unat v < 128" using assms by (simp add: word_less_nat_alt)
  then have "v < 2 ^ 7" by (simp add: word_less_nat_alt)
  then show ?thesis by (simp add: take_bit_eq_mask less_mask_eq)
qed

lemma push_bit_split7:
  fixes v :: "32 word"
  shows "push_bit n (take_bit 7 v) OR push_bit (n + 7) (drop_bit 7 v) = push_bit n v"
proof (rule bit_eqI)
  fix k assume "possible_bit TYPE(32 word) k"
  show "bit (push_bit n (take_bit 7 v) OR push_bit (n + 7) (drop_bit 7 v)) k = bit (push_bit n v) k"
  proof (cases "n \<le> k \<and> \<not> k - n < 7")
    case True
    then have "7 + (k - (n + 7)) = k - n" "n + 7 \<le> k" by arith+
    with True show ?thesis by (auto simp: bit_simps)
  next
    case False
    then show ?thesis by (auto simp: bit_simps)
  qed
qed

lemma continuation_byte_data:
  fixes v :: "32 word"
  shows "(ucast (ucast (v OR 128) :: 8 word) :: 32 word) AND NOT 128 = take_bit 7 v"
  apply (rule bit_eqI)
  apply (auto simp: bit_simps bit_128_int)
  done

lemma continuation_byte_bit:
  fixes v :: "32 word"
  shows "bit (ucast (v OR 128) :: 8 word) 7"
  by (simp add: bit_simps bit_128_int)

lemma final_byte_data:
  fixes v :: "32 word"
  assumes "take_bit 7 v = v"
  shows "(ucast (ucast v :: 8 word) :: 32 word) AND NOT 128 = v"
proof (rule bit_eqI)
  fix n assume "possible_bit TYPE(32 word) n"
  have a: "bit (take_bit 7 v) n = bit v n" by (simp add: assms)
  have b: "bit (take_bit 7 v) n \<Longrightarrow> n < 7" by (simp add: bit_simps)
  have "bit v n \<Longrightarrow> n < 7" using a b by blast
  then show "bit ((ucast (ucast v :: 8 word) :: 32 word) AND NOT 128) n = bit v n"
    by (auto simp: bit_simps bit_128_int)
qed

lemma continuation_byte_js:
  fixes v :: "32 word"
  shows "(ucast (ucast (v OR 128) :: 8 word) :: 32 word) AND - 129 = take_bit 7 v"
  using continuation_byte_data [of v] by simp

lemma final_byte_js:
  fixes v :: "32 word"
  assumes "take_bit 7 v = v"
  shows "(ucast (ucast v :: 8 word) :: 32 word) AND - 129 = v"
  using final_byte_data [OF assms] by simp

lemma shiftCount_7: "i < 5 \<Longrightarrow> shiftCount (Num (7 * int i)) = 7 * i"
proof -
  assume "i < 5"
  then have "i = 0 \<or> i = 1 \<or> i = 2 \<or> i = 3 \<or> i = 4" by arith
  then show ?thesis by (auto simp: shiftCount_def ToInt32_def)
qed

lemma encodeVB_length_pos: "0 < length (encodeVB v)"
  by (subst encodeVB.simps) simp

lemma encodeVB_length_le:
  "unat v < 2 ^ (7 * k) \<Longrightarrow> 0 < k \<Longrightarrow> length (encodeVB v) \<le> k"
proof (induction k arbitrary: v)
  case 0
  then show ?case by simp
next
  case (Suc k)
  show ?case
  proof (cases "127 < v")
    case False
    then show ?thesis by (subst encodeVB.simps) simp
  next
    case True
    then have big: "128 \<le> unat v" by (simp add: word_less_nat_alt)
    have "0 < k"
    proof (rule ccontr)
      assume "\<not> 0 < k"
      then have "k = 0" by simp
      with Suc.prems big show False by simp
    qed
    moreover have "unat (drop_bit 7 v) < 2 ^ (7 * k)"
    proof -
      have "unat v < 2 ^ 7 * 2 ^ (7 * k)" using Suc.prems by (simp add: power_add)
      then have "unat v div 2 ^ 7 < 2 ^ (7 * k)" by (simp add: less_mult_imp_div_less mult.commute)
      then show ?thesis by (simp only: unat_drop_bit_eq) (simp add: drop_bit_eq_div)
    qed
    ultimately have "length (encodeVB (drop_bit 7 v)) \<le> k" by (rule Suc.IH [rotated])
    then show ?thesis using True by (subst encodeVB.simps) simp
  qed
qed

lemma encodeVB_length_le_5: "length (encodeVB v) \<le> 5"
proof -
  have "unat v < 2 ^ 32" using unsigned_less [of v] by simp
  also have "(2::nat) ^ 32 \<le> 2 ^ (7 * 5)" by simp
  finally show ?thesis by (rule encodeVB_length_le) simp
qed

lemma readUnsignedVB_loop_decodes:
  "bytes_at s (pos s) (encodeVB v) \<Longrightarrow> i + length (encodeVB v) \<le> 5 \<Longrightarrow> shift = 7 * int i \<Longrightarrow>
   readUnsignedVB_loop s i shift (Num (sint r))
     = (Num (uint (r OR push_bit (7 * i) v)), s\<lparr>pos := pos s + int (length (encodeVB v))\<rparr>)"
proof (induction v arbitrary: s i shift r rule: encodeVB.induct)
  case (1 v)
  have i5: "i < 5" using "1.prems"(2) encodeVB_length_pos [of v] by linarith
  show ?case
  proof (cases "127 < v")
    case True
    let ?b = "ucast (v OR 0x80) :: 8 word"
    let ?s1 = "s\<lparr>pos := pos s + 1\<rparr>"
    let ?r1 = "r OR push_bit (7 * i) (take_bit 7 v)"
    have enc: "encodeVB v = ?b # encodeVB (drop_bit 7 v)"
      using True by (subst encodeVB.simps) simp
    have p: "pos s < end' s" "data_at s (pos s) = Num (uint ?b)"
      "bytes_at ?s1 (pos ?s1) (encodeVB (drop_bit 7 v))"
      using "1.prems"(1) enc by simp_all
    have len: "Suc i + length (encodeVB (drop_bit 7 v)) \<le> 5"
      using "1.prems"(2) enc by simp
    have rb: "readByte s = (Num (uint ?b), ?s1)"
      using p by (simp add: readByte_def)
    have low: "js_and (Num (uint ?b)) (js_not (Num 0x80)) = Num (sint (take_bit 7 v))"
      by (simp add: js_and_def js_not_def ToInt32_def continuation_byte_js)
    have step: "js_or (Num (sint r)) (js_shl (js_and (Num (uint ?b)) (js_not (Num 0x80))) (Num shift))
                  = Num (sint ?r1)"
      using i5 "1.prems"(3) unfolding low
      by (simp add: js_or_def js_shl_def shiftCount_7)
    have "\<not> ?b < 128"
      using continuation_byte_bit [of v] by (simp only: byte_lt_128_bit) simp
    then have nl: "\<not> uint ?b < 128"
      by (simp add: word_less_def)
    have IH: "readUnsignedVB_loop ?s1 (Suc i) (shift + 7) (Num (sint ?r1))
                = (Num (uint (?r1 OR push_bit (7 * Suc i) (drop_bit 7 v))),
                   ?s1\<lparr>pos := pos ?s1 + int (length (encodeVB (drop_bit 7 v)))\<rparr>)"
      using "1.prems"(3) by (intro "1.IH" [OF True p(3) len]) simp
    have join: "?r1 OR push_bit (7 + 7 * i) (drop_bit 7 v) = r OR push_bit (7 * i) v"
      using push_bit_split7 [of "7 * i" v] by (simp add: or.assoc add.commute)
    show ?thesis
      by (subst readUnsignedVB_loop.simps) (simp add: Let_def i5 rb step nl IH join enc)
  next
    case False
    let ?b = "ucast v :: 8 word"
    let ?s1 = "s\<lparr>pos := pos s + 1\<rparr>"
    have enc: "encodeVB v = [?b]"
      using False by (subst encodeVB.simps) simp
    have p: "pos s < end' s" "data_at s (pos s) = Num (uint ?b)"
      using "1.prems"(1) enc by simp_all
    have rb: "readByte s = (Num (uint ?b), ?s1)"
      using p by (simp add: readByte_def)
    have tb: "take_bit 7 v = v" using False by (rule small_take_bit)
    have low: "js_and (Num (uint ?b)) (js_not (Num 0x80)) = Num (sint v)"
      by (simp add: js_and_def js_not_def ToInt32_def final_byte_js [OF tb])
    have step: "js_or (Num (sint r)) (js_shl (js_and (Num (uint ?b)) (js_not (Num 0x80))) (Num shift))
                  = Num (sint (r OR push_bit (7 * i) v))"
      using i5 "1.prems"(3) unfolding low
      by (simp add: js_or_def js_shl_def shiftCount_7)
    have lt: "uint ?b < 128"
    proof -
      have "bit ?b 7 = bit (take_bit 7 v) 7" by (simp add: tb bit_simps)
      then have "\<not> bit ?b 7" by (simp add: bit_simps)
      then have "?b < 128" by (simp only: byte_lt_128_bit) simp
      then show ?thesis by (simp add: word_less_def)
    qed
    have fin: "js_shr (Num (sint (r OR push_bit (7 * i) v))) (Num 0) = Num (uint (r OR push_bit (7 * i) v))"
      by (simp add: js_shr_def shiftCount_def ToInt32_def)
    show ?thesis
      by (subst readUnsignedVB_loop.simps) (simp add: Let_def i5 rb step lt fin enc)
  qed
qed

lemma bit_signed_drop_bit_31: fixes x :: "32 word" shows "bit (signed_drop_bit 31 x) n = (n < 32 \<and> bit x 31)"
proof (cases "n < 32")
  case False
  have "\<not> bit (signed_drop_bit 31 x) n"
    using False bit_imp_le_length [of "signed_drop_bit 31 x" n] by auto
  with False show ?thesis by simp
next
  case True
  show ?thesis
  proof (cases "n = 0")
    case True
    then show ?thesis by (simp add: bit_signed_drop_bit_iff)
  next
    case False
    with \<open>n < 32\<close> show ?thesis by (simp add: bit_signed_drop_bit_iff)
  qed
qed

lemma bit_times2: fixes x :: "32 word" shows "bit (x * 2) n = (0 < n \<and> n < 32 \<and> bit x (n - 1))"
  using bit_push_bit_iff [of 1 x n] by (auto simp: possible_bit_word)

lemma word_and_1: fixes u :: "32 word" shows "u AND 1 = of_bool (bit u 0)"
  by (rule bit_eqI) (auto simp: bit_simps bit_0 and_one_eq mod_2_eq_odd)

lemma zigzag_word:
  fixes x :: "32 word"
  defines "u \<equiv> push_bit 1 x XOR signed_drop_bit 31 x"
  shows "drop_bit 1 u XOR - (u AND 1) = x"
proof -
  have b0: "bit u 0 = bit x 31" by (simp add: u_def bit_simps bit_signed_drop_bit_31 bit_times2 del: bit_signed_drop_bit_iff)
  show ?thesis
  proof (cases "bit x 31")
    case True
    then have m: "- (u AND 1) = - 1" by (simp add: word_and_1 b0)
    show ?thesis unfolding m
    proof (rule bit_eqI)
      fix n assume "possible_bit TYPE(32 word) n"
      then have n: "n < 32" by (simp add: possible_bit_word)
      then have "n < 31 \<or> n = 31" by arith
      then show "bit (drop_bit 1 u XOR - 1) n = bit x n"
        using True n by (auto simp: u_def bit_simps bit_signed_drop_bit_31 bit_times2 simp del: bit_signed_drop_bit_iff)
    qed
  next
    case False
    then have m: "- (u AND 1) = 0" by (simp add: word_and_1 b0)
    show ?thesis unfolding m
    proof (rule bit_eqI)
      fix n assume "possible_bit TYPE(32 word) n"
      then have n: "n < 32" by (simp add: possible_bit_word)
      then have "n < 31 \<or> n = 31" by arith
      then show "bit (drop_bit 1 u XOR 0) n = bit x n"
        using False n by (auto simp: u_def bit_simps bit_signed_drop_bit_31 bit_times2 simp del: bit_signed_drop_bit_iff)
    qed
  qed
qed

lemma readUnsignedVB_decodes:
  assumes "bytes_at s (pos s) (encodeVB u)"
  shows "readUnsignedVB s = (Num (uint u), s\<lparr>pos := pos s + int (length (encodeVB u))\<rparr>)"
proof -
  have "readUnsignedVB_loop s 0 0 (Num (sint (0 :: 32 word)))
          = (Num (uint (0 OR push_bit (7 * 0) u)), s\<lparr>pos := pos s + int (length (encodeVB u))\<rparr>)"
    using assms encodeVB_length_le_5 [of u] by (intro readUnsignedVB_loop_decodes) simp_all
  then show ?thesis by (simp add: readUnsignedVB_def)
qed

lemma zigzag_decode_js:
  fixes x :: "32 word"
  shows "js_xor (js_shr (Num (uint (encodeZigZag x))) (Num 1))
           (js_neg (js_and (Num (uint (encodeZigZag x))) (Num 1))) = Num (sint x)"
proof -
  let ?u = "encodeZigZag x"
  have a: "js_shr (Num (uint ?u)) (Num 1) = Num (uint (drop_bit 1 ?u))"
    by (simp add: js_shr_def shiftCount_def ToInt32_def)
  have b: "js_neg (js_and (Num (uint ?u)) (Num 1)) = Num (- sint (?u AND 1))"
    by (simp add: js_neg_def js_and_def ToInt32_def)
  have c: "ToInt32 (Num (- sint (?u AND 1))) = - (?u AND 1)"
    by (simp add: ToInt32_def)
  have "drop_bit 1 ?u XOR - (?u AND 1) = x"
    unfolding encodeZigZag_def by (rule zigzag_word)
  then show ?thesis
    unfolding a b by (simp add: js_xor_def c)
qed

lemma bytes_at_drop:
  "0 \<le> p \<Longrightarrow> drop (nat p) (data s) = bs @ rest \<Longrightarrow> p + int (length bs) \<le> end' s
     \<Longrightarrow> bytes_at s p bs"
proof (induction bs arbitrary: p)
  case Nil
  show ?case by simp
next
  case (Cons b bs)
  from Cons.prems(2) have ne: "drop (nat p) (data s) \<noteq> []" by simp
  then have lt: "nat p < length (data s)" by simp
  have "data s ! nat p = hd (drop (nat p) (data s))"
    using lt by (simp add: hd_drop_conv_nth)
  then have b: "data s ! nat p = b" using Cons.prems(2) by simp
  have "drop (Suc (nat p)) (data s) = tl (drop (nat p) (data s))"
    by (simp add: drop_Suc tl_drop)
  then have "drop (nat (p + 1)) (data s) = bs @ rest"
    using Cons.prems(1,2) by (simp add: nat_add_distrib)
  then have "bytes_at s (p + 1) bs"
    using Cons.prems(1,3) by (intro Cons.IH) simp_all
  then show ?case
    using Cons.prems(1,3) lt b by (simp add: data_at_def)
qed

lemma bytes_at_inside:
  "bytes_at ((ArrayDataStream_of (before @ bs @ rest))\<lparr>pos := int (length before)\<rparr>)
     (int (length before)) bs"
  by (rule bytes_at_drop [where rest = rest])
     (simp_all add: ArrayDataStream_of_def ArrayDataStream_new_def)

text \<open>
  Claim C1. Wherever a stream stands, if the bytes from its position on, inside its range,
  are those that the reference encoder writes for a 32-bit unsigned \<open>u\<close> (at most five of
  them), \<open>readUnsignedVB\<close> returns \<open>u\<close> and leaves the stream just after them; and if they
  are the encoding of the ZigZag image of a 32-bit signed \<open>x\<close>, \<open>readSignedVB\<close> returns
  \<open>x\<close> and leaves the stream just after them. The values range over all 32-bit words,
  read as unsigned (\<open>uint\<close>) and as signed (\<open>sint\<close>). The encoding may lie anywhere in
  a buffer, after a header and before other bytes: the last part says that the stream
  over such a buffer, moved to the encoding, is such a stream.
\<close>

theorem variable_byte_round_trip:
  "length (encodeVB u) \<le> 5
   \<and> (bytes_at s (pos s) (encodeVB u) \<longrightarrow>
        readUnsignedVB s = (Num (uint u), s\<lparr>pos := pos s + int (length (encodeVB u))\<rparr>))
   \<and> (bytes_at t (pos t) (encodeVB (encodeZigZag x)) \<longrightarrow>
        readSignedVB t
          = (Num (sint x), t\<lparr>pos := pos t + int (length (encodeVB (encodeZigZag x)))\<rparr>))
   \<and> readUnsignedVB ((ArrayDataStream_of (before @ encodeVB u @ rest))
                        \<lparr>pos := int (length before)\<rparr>)
       = (Num (uint u),
          (ArrayDataStream_of (before @ encodeVB u @ rest))
            \<lparr>pos := int (length before) + int (length (encodeVB u))\<rparr>)
   \<and> readSignedVB ((ArrayDataStream_of (before @ encodeVB (encodeZigZag x) @ rest))
                      \<lparr>pos := int (length before)\<rparr>)
       = (Num (sint x),
          (ArrayDataStream_of (before @ encodeVB (encodeZigZag x) @ rest))
            \<lparr>pos := int (length before) + int (length (encodeVB (encodeZigZag x)))\<rparr>)"
proof (intro conjI impI)
  show "length (encodeVB u) \<le> 5" by (rule encodeVB_length_le_5)
next
  assume "bytes_at s (pos s) (encodeVB u)"
  then show "readUnsignedVB s = (Num (uint u), s\<lparr>pos := pos s + int (length (encodeVB u))\<rparr>)"
    by (rule readUnsignedVB_decodes)
next
  assume "bytes_at t (pos t) (encodeVB (encodeZigZag x))"
  from readUnsignedVB_decodes [OF this]
  show "readSignedVB t
      = (Num (sint x), t\<lparr>pos := pos t + int (length (encodeVB (encodeZigZag x)))\<rparr>)"
    by (simp add: readSignedVB_def zigzag_decode_js)
next
  let ?s = "(ArrayDataStream_of (before @ encodeVB u @ rest))\<lparr>pos := int (length before)\<rparr>"
  have "bytes_at ?s (pos ?s) (encodeVB u)" using bytes_at_inside [of before "encodeVB u" rest] by simp
  from readUnsignedVB_decodes [OF this]
  show "readUnsignedVB ?s
      = (Num (uint u),
         (ArrayDataStream_of (before @ encodeVB u @ rest))
           \<lparr>pos := int (length before) + int (length (encodeVB u))\<rparr>)"
    by simp
next
  let ?e = "encodeVB (encodeZigZag x)"
  let ?s = "(ArrayDataStream_of (before @ ?e @ rest))\<lparr>pos := int (length before)\<rparr>"
  have "bytes_at ?s (pos ?s) ?e" using bytes_at_inside [of before ?e rest] by simp
  from readUnsignedVB_decodes [OF this]
  show "readSignedVB ?s
      = (Num (sint x),
         (ArrayDataStream_of (before @ ?e @ rest))\<lparr>pos := int (length before) + int (length ?e)\<rparr>)"
    by (simp add: readSignedVB_def zigzag_decode_js)
qed

theorem variable_byte_round_trip_witness:
  "readUnsignedVB \<lparr>data = [0x48, 0x0a, 0xac, 0x02, 0xff], start = 1, end' = 4, pos = 2, eof = False\<rparr>
     = (Num 300, \<lparr>data = [0x48, 0x0a, 0xac, 0x02, 0xff], start = 1, end' = 4, pos = 4, eof = False\<rparr>)
   \<and> readSignedVB \<lparr>data = [0x48, 0x0a, 0x05, 0xff], start = 0, end' = 4, pos = 2, eof = False\<rparr>
     = (Num (- 3), \<lparr>data = [0x48, 0x0a, 0x05, 0xff], start = 0, end' = 4, pos = 3, eof = False\<rparr>)"
proof -
  let ?s = "\<lparr>data = [0x48, 0x0a, 0xac, 0x02, 0xff], start = 1, end' = 4, pos = 2, eof = False\<rparr>"
  let ?t = "\<lparr>data = [0x48, 0x0a, 0x05, 0xff], start = 0, end' = 4, pos = 2, eof = False\<rparr>"
  have u: "encodeVB 300 = [0xac, 0x02]" by code_simp
  have z: "encodeZigZag (- 3) = 5" by code_simp
  have x: "encodeVB 5 = [0x05]" by code_simp
  have i: "sint (- 3 :: 32 word) = - 3" "uint (300 :: 32 word) = 300" by simp_all
  have a: "bytes_at ?s (pos ?s) (encodeVB 300)" unfolding u by (simp add: data_at_def)
  have b: "bytes_at ?t (pos ?t) (encodeVB (encodeZigZag (- 3)))"
    unfolding z x by (simp add: data_at_def)
  from a b show ?thesis
    using variable_byte_round_trip [of 300 ?s ?t "- 3" "[]" "[]"] by (simp add: u z x i)
qed

section \<open>Variable-byte integers: malformed and truncated input\<close>

text \<open>
  \<open>continues s p\<close>: a read at offset \<open>p\<close> finds a byte (\<open>p\<close> is before \<open>end\<close>) that does
  not end the number, since it is not below 128: its continuation bit is set. An offset
  outside the buffer reads \<open>undefined\<close>, which is not below 128 either.
\<close>

definition continues :: "ArrayDataStream \<Rightarrow> int \<Rightarrow> bool" where
  "continues s p = (p < end' s \<and> \<not> js_lt (data_at s p) (Num 128))"

lemma data_at_not_EOF: "\<not> js_eq (data_at s p) EOF"
proof (cases "0 \<le> p \<and> p < int (length (data s))")
  case True
  then have "data_at s p = Num (uint (data s ! nat p))" by (simp add: data_at_def)
  then show ?thesis by simp
next
  case False
  then have "data_at s p = Undefined" by (auto simp: data_at_def)
  then show ?thesis by (simp add: EOF_def)
qed

lemma data_at_pos_update [simp]: "data_at (s\<lparr>pos := q\<rparr>) p = data_at s p"
  by (simp add: data_at_def)

lemma continues_pos_update [simp]: "continues (s\<lparr>pos := q\<rparr>) p = continues s p"
  by (simp add: continues_def)

lemma readUnsignedVB_loop_continues:
  "i + k \<le> 5 \<Longrightarrow> \<forall>j<k. continues s (pos s + int j) \<Longrightarrow>
     \<exists>result'. readUnsignedVB_loop s i shift result
        = readUnsignedVB_loop (s\<lparr>pos := pos s + int k\<rparr>) (i + k) (shift + 7 * int k) result'"
proof (induction k arbitrary: s i shift result)
  case 0
  show ?case by (rule exI [of _ result]) simp
next
  case (Suc k)
  let ?s1 = "s\<lparr>pos := pos s + 1\<rparr>"
  let ?b = "data_at s (pos s)"
  let ?r1 = "js_or result (js_shl (js_and ?b (js_not (Num 0x80))) (Num shift))"
  have c0: "continues s (pos s)" using Suc.prems(2) by force
  have rb: "readByte s = (?b, ?s1)" using c0 by (simp add: readByte_def continues_def)
  have nl: "\<not> js_lt ?b (Num 128)" using c0 by (simp add: continues_def)
  have i5: "i < 5" using Suc.prems(1) by simp
  have step: "readUnsignedVB_loop s i shift result = readUnsignedVB_loop ?s1 (i + 1) (shift + 7) ?r1"
    by (subst readUnsignedVB_loop.simps) (simp add: Let_def i5 rb nl data_at_not_EOF)
  have rest: "\<forall>j<k. continues ?s1 (pos ?s1 + int j)"
  proof (intro allI impI)
    fix j assume "j < k"
    then have "Suc j < Suc k" by simp
    with Suc.prems(2) have c: "continues s (pos s + int (Suc j))" by blast
    have e: "pos s + int (Suc j) = pos s + 1 + int j" by simp
    show "continues ?s1 (pos ?s1 + int j)" using c unfolding e by simp
  qed
  have "i + 1 + k \<le> 5" using Suc.prems(1) by simp
  from Suc.IH [OF this rest, of "shift + 7" ?r1]
  obtain result' where
    "readUnsignedVB_loop ?s1 (i + 1) (shift + 7) ?r1
       = readUnsignedVB_loop (?s1\<lparr>pos := pos ?s1 + int k\<rparr>) (i + 1 + k) (shift + 7 + 7 * int k) result'"
    by blast
  with step have "readUnsignedVB_loop s i shift result
       = readUnsignedVB_loop (s\<lparr>pos := pos s + int (Suc k)\<rparr>) (i + Suc k) (shift + 7 * int (Suc k)) result'"
    by (simp add: algebra_simps)
  then show ?case by blast
qed

lemma readUnsignedVB_truncated:
  assumes "k < 5" "\<forall>j<k. continues s (pos s + int j)" "end' s \<le> pos s + int k"
  shows "readUnsignedVB s = (Num 0, s\<lparr>pos := pos s + int k, eof := True\<rparr>)"
proof -
  let ?s' = "s\<lparr>pos := pos s + int k\<rparr>"
  from readUnsignedVB_loop_continues [of 0 k s 0 "Num 0"] assms
  obtain result' where e: "readUnsignedVB_loop s 0 0 (Num 0) = readUnsignedVB_loop ?s' k (7 * int k) result'"
    by auto
  have rb: "readByte ?s' = (EOF, ?s'\<lparr>eof := True\<rparr>)"
    using assms(3) by (simp add: readByte_def)
  have "readUnsignedVB_loop ?s' k (7 * int k) result' = (Num 0, ?s'\<lparr>eof := True\<rparr>)"
    by (subst readUnsignedVB_loop.simps) (simp add: assms(1) rb EOF_def)
  with e show ?thesis by (simp add: readUnsignedVB_def)
qed

lemma readUnsignedVB_too_long:
  assumes "\<forall>j<5. continues s (pos s + int j)"
  shows "readUnsignedVB s = (Num 0, s\<lparr>pos := pos s + 5\<rparr>)"
proof -
  let ?s' = "s\<lparr>pos := pos s + int 5\<rparr>"
  from readUnsignedVB_loop_continues [of 0 5 s 0 "Num 0"] assms
  obtain result' where e: "readUnsignedVB_loop s 0 0 (Num 0) = readUnsignedVB_loop ?s' 5 (7 * int 5) result'"
    by auto
  have "readUnsignedVB_loop ?s' 5 (7 * int 5) result' = (Num 0, ?s')"
    by (subst readUnsignedVB_loop.simps) simp
  with e show ?thesis by (simp add: readUnsignedVB_def)
qed

text \<open>
  Claim C3. \<open>readUnsignedVB\<close> is a total function of the stream: it raises nothing. When
  the data ends after \<open>k < 5\<close> bytes that all continue the number, it returns 0 (its last
  read sets \<open>eof\<close>); when five bytes in a row continue the number, it returns 0 and the
  position has advanced by exactly 5.
\<close>

theorem readUnsignedVB_malformed:
  "(k < 5 \<and> (\<forall>j<k. continues s (pos s + int j)) \<and> end' s \<le> pos s + int k
      \<longrightarrow> fst (readUnsignedVB s) = Num 0)
   \<and> ((\<forall>j<5. continues s (pos s + int j))
      \<longrightarrow> fst (readUnsignedVB s) = Num 0 \<and> pos (snd (readUnsignedVB s)) = pos s + 5)"
  using readUnsignedVB_truncated [of k s] readUnsignedVB_too_long [of s] by auto

theorem readUnsignedVB_malformed_witness:
  "fst (readUnsignedVB (ArrayDataStream_of [0x81, 0xff])) = Num 0
   \<and> fst (readUnsignedVB (ArrayDataStream_of [0x80, 0x81, 0x82, 0x83, 0x84, 0x05])) = Num 0
   \<and> pos (snd (readUnsignedVB (ArrayDataStream_of [0x80, 0x81, 0x82, 0x83, 0x84, 0x05]))) = 5"
proof -
  let ?s = "ArrayDataStream_of [0x81, 0xff]"
  let ?t = "ArrayDataStream_of [0x80, 0x81, 0x82, 0x83, 0x84, 0x05]"
  have a: "\<forall>j<2. continues ?s (pos ?s + int j)"
  proof (intro allI impI)
    fix j :: nat assume "j < 2"
    then have "j = 0 \<or> j = 1" by arith
    then show "continues ?s (pos ?s + int j)"
      by (auto simp: continues_def data_at_def ArrayDataStream_of_def ArrayDataStream_new_def)
  qed
  have b: "end' ?s \<le> pos ?s + int 2"
    by (simp add: ArrayDataStream_of_def ArrayDataStream_new_def)
  have c: "\<forall>j<5. continues ?t (pos ?t + int j)"
  proof (intro allI impI)
    fix j :: nat assume "j < 5"
    then have "j = 0 \<or> j = 1 \<or> j = 2 \<or> j = 3 \<or> j = 4" by arith
    then show "continues ?t (pos ?t + int j)"
      by (auto simp: continues_def data_at_def ArrayDataStream_of_def ArrayDataStream_new_def)
  qed
  have p: "pos ?t = 0" by (simp add: ArrayDataStream_of_def ArrayDataStream_new_def)
  show ?thesis
    using readUnsignedVB_malformed [of 2 ?s] readUnsignedVB_malformed [of 0 ?t] a b c p by simp
qed

section \<open>The bounds of the stream\<close>

text \<open>
  The bounds that the specification gives for a stream, and the relation between a stream
  and a later state of it that every reader keeps: same buffer, same \<open>start\<close> and \<open>end\<close>,
  and a position that has not moved back and has not moved past \<open>end\<close>.
\<close>

definition stream_inv :: "ArrayDataStream \<Rightarrow> bool" where
  "stream_inv s = (start s \<le> pos s \<and> pos s \<le> end' s \<and> end' s \<le> int (length (data s)))"

definition advanced :: "ArrayDataStream \<Rightarrow> ArrayDataStream \<Rightarrow> bool" where
  "advanced s t =
     (data t = data s \<and> start t = start s \<and> end' t = end' s
      \<and> pos s \<le> pos t \<and> (pos t \<le> end' s \<or> pos t = pos s))"

lemma advanced_refl [simp]: "advanced s s"
  by (simp add: advanced_def)

lemma advanced_trans: "advanced s t \<Longrightarrow> advanced t u \<Longrightarrow> advanced s u"
  by (auto simp: advanced_def)

lemma advanced_inv: "stream_inv s \<Longrightarrow> advanced s t \<Longrightarrow> stream_inv t"
  by (auto simp: advanced_def stream_inv_def)

lemma readByte_advanced: "readByte s = (b, t) \<Longrightarrow> advanced s t"
  by (auto simp: readByte_def advanced_def split: if_splits)

lemma readChar_advanced: "readChar s = (c, t) \<Longrightarrow> advanced s t"
  by (auto simp: readChar_def advanced_def split: if_splits)

lemma peekChar_advanced: "peekChar s = (c, t) \<Longrightarrow> advanced s t"
  by (auto simp: peekChar_def advanced_def split: if_splits)

lemma readLine_loop_advanced: "advanced s (readLine_loop s)"
proof (induction s rule: readLine_loop.induct)
  case (1 s)
  show ?case
  proof (cases "pos s < end' s \<and> data_at s (pos s) \<notin> {NEWLINE_CODE, Num 0}")
    case True
    then have e: "readLine_loop s = readLine_loop (s\<lparr>pos := pos s + 1\<rparr>)"
      by (subst readLine_loop.simps) simp
    have "advanced s (s\<lparr>pos := pos s + 1\<rparr>)" using True by (simp add: advanced_def)
    with 1 [OF True] show ?thesis unfolding e by (blast intro: advanced_trans)
  next
    case False
    then have "readLine_loop s = s" by (subst readLine_loop.simps) auto
    then show ?thesis by simp
  qed
qed

lemma readLine_advanced: "advanced s (snd (readLine s))"
  by (simp add: readLine_def Let_def readLine_loop_advanced)

lemma readString_loop_advanced: "advanced s (snd (readString_loop s n chars))"
proof (induction n arbitrary: s chars)
  case 0
  show ?case by simp
next
  case (Suc n)
  obtain c t where r: "readChar s = (c, t)" by (cases "readChar s")
  from readChar_advanced [OF r] Suc [of t "chars @ [c]"] show ?case
    by (simp add: r) (blast intro: advanced_trans)
qed

lemma readString_advanced: "readString s n = Inr (str, t) \<Longrightarrow> advanced s t"
  using readString_loop_advanced [of s "nat n" "[]"]
  by (auto simp: readString_def split: if_splits prod.splits)

lemma readUnsignedVB_loop_advanced: "advanced s (snd (readUnsignedVB_loop s i shift result))"
proof (induction s i shift result rule: readUnsignedVB_loop.induct)
  case (1 s i shift result)
  obtain b t where r: "readByte s = (b, t)" by (cases "readByte s")
  note a = readByte_advanced [OF r]
  show ?case
  proof (cases "i < 5 \<and> \<not> js_eq b EOF \<and> \<not> js_lt b (Num 128)")
    case True
    with 1 [OF _ r [symmetric]] a show ?thesis
      by (subst readUnsignedVB_loop.simps) (auto simp: r Let_def intro: advanced_trans)
  next
    case False
    with a show ?thesis
      by (subst readUnsignedVB_loop.simps) (auto simp: r Let_def)
  qed
qed

lemma readUnsignedVB_advanced: "readUnsignedVB s = (v, t) \<Longrightarrow> advanced s t"
  using readUnsignedVB_loop_advanced [of s 0 0 "Num 0"] by (simp add: readUnsignedVB_def)

lemma readSignedVB_advanced: "readSignedVB s = (v, t) \<Longrightarrow> advanced s t"
  by (auto simp: readSignedVB_def split: prod.splits dest: readUnsignedVB_advanced)

lemma advanced_bind_readByte:
  "(\<And>b t. readByte s = (b, t) \<Longrightarrow> advanced t (snd (k b t)))
     \<Longrightarrow> advanced s (snd (case readByte s of (b, t) \<Rightarrow> k b t))"
proof -
  assume h: "\<And>b t. readByte s = (b, t) \<Longrightarrow> advanced t (snd (k b t))"
  obtain b t where r: "readByte s = (b, t)" by (cases "readByte s")
  from readByte_advanced [OF r] h [OF r] show ?thesis
    by (simp add: r) (rule advanced_trans)
qed

lemma advanced_bind_readSignedVB:
  "(\<And>v t. readSignedVB s = (v, t) \<Longrightarrow> advanced t (snd (k v t)))
     \<Longrightarrow> advanced s (snd (case readSignedVB s of (v, t) \<Rightarrow> k v t))"
proof -
  assume h: "\<And>v t. readSignedVB s = (v, t) \<Longrightarrow> advanced t (snd (k v t))"
  obtain v t where r: "readSignedVB s = (v, t)" by (cases "readSignedVB s")
  from readSignedVB_advanced [OF r] h [OF r] show ?thesis
    by (simp add: r) (rule advanced_trans)
qed

lemma readS8_advanced: "advanced s (snd (readS8 s))"
  unfolding readS8_def Let_def by (intro advanced_bind_readByte) simp

lemma readU16_advanced: "advanced s (snd (readU16 s))"
  unfolding readU16_def Let_def by (intro advanced_bind_readByte) simp

lemma readS16_advanced: "advanced s (snd (readS16 s))"
  unfolding readS16_def Let_def by (intro advanced_bind_readByte) simp

lemma readU32_advanced: "advanced s (snd (readU32 s))"
  unfolding readU32_def Let_def by (intro advanced_bind_readByte) simp

lemma readTag2_3_wide_advanced: "advanced s (snd (readTag2_3_wide s leadByte i vals))"
proof (induction s leadByte i vals rule: readTag2_3_wide.induct)
  case (1 s leadByte i vals)
  then show ?case
    by (subst readTag2_3_wide.simps)
       (auto simp: Let_def intro!: advanced_bind_readByte)
qed

lemma readTag2_3S32_advanced: "advanced s (snd (readTag2_3S32 s vals))"
  unfolding readTag2_3S32_def
  by (auto simp: Let_def readTag2_3_wide_advanced intro!: advanced_bind_readByte)

lemma readTag2_3SVariable_advanced: "advanced s (snd (readTag2_3SVariable s vals))"
  unfolding readTag2_3SVariable_def
  by (auto simp: Let_def readTag2_3_wide_advanced intro!: advanced_bind_readByte)

lemma readTag8_4S16_v1_loop_advanced: "advanced s (snd (readTag8_4S16_v1_loop s selector i vals))"
proof (induction s selector i vals rule: readTag8_4S16_v1_loop.induct)
  case (1 s selector i vals)
  then show ?case
    by (subst readTag8_4S16_v1_loop.simps)
       (auto simp: Let_def intro!: advanced_bind_readByte)
qed

lemma readTag8_4S16_v1_advanced: "advanced s (snd (readTag8_4S16_v1 s vals))"
  unfolding readTag8_4S16_v1_def
  by (auto simp: Let_def readTag8_4S16_v1_loop_advanced intro!: advanced_bind_readByte)

lemma readTag8_4S16_v2_loop_advanced:
  "advanced s (snd (readTag8_4S16_v2_loop s selector i vals buffer nibbleIndex))"
proof (induction s selector i vals buffer nibbleIndex rule: readTag8_4S16_v2_loop.induct)
  case (1 s selector i vals buffer nibbleIndex)
  then show ?case
    by (subst readTag8_4S16_v2_loop.simps)
       (auto simp: Let_def intro!: advanced_bind_readByte)
qed

lemma readTag8_4S16_v2_advanced: "advanced s (snd (readTag8_4S16_v2 s vals))"
  unfolding readTag8_4S16_v2_def
  by (auto simp: Let_def readTag8_4S16_v2_loop_advanced intro!: advanced_bind_readByte)

lemma readTag8_8SVB_loop_advanced: "advanced s (snd (readTag8_8SVB_loop s header i vals))"
proof (induction s header i vals rule: readTag8_8SVB_loop.induct)
  case (1 s header i vals)
  then show ?case
    by (subst readTag8_8SVB_loop.simps)
       (auto simp: Let_def intro!: advanced_bind_readSignedVB)
qed

lemma readTag8_8SVB_advanced: "advanced s (snd (readTag8_8SVB s vals valueCount))"
  unfolding readTag8_8SVB_def
  by (auto simp: Let_def readTag8_8SVB_loop_advanced
           intro!: advanced_bind_readByte advanced_bind_readSignedVB)

lemma allIndicesOf_loop_advanced:
  "pos s \<le> end' s \<Longrightarrow> advanced s (snd (allIndicesOf_loop s marker indices))"
proof (induction s marker indices rule: allIndicesOf_loop.induct)
  case (1 s marker indices)
  show ?case
  proof (cases "nextOffsetOf s marker = - 1")
    case True
    then show ?thesis by (subst allIndicesOf_loop.simps) simp
  next
    case False
    let ?t = "s\<lparr>pos := nextOffsetOf s marker + int (length marker)\<rparr>"
    from False have "nextOffsetOf_loop s marker (pos s) \<noteq> - 1" by (simp add: nextOffsetOf_def)
    from nextOffsetOf_loop_found [OF this]
    have b: "pos s \<le> nextOffsetOf s marker" "nextOffsetOf s marker + int (length marker) \<le> end' s"
      by (simp_all add: nextOffsetOf_def)
    then have a: "advanced s ?t" by (simp add: advanced_def)
    have "advanced ?t (snd (allIndicesOf_loop ?t marker (indices @ [nextOffsetOf s marker])))"
      using b by (intro "1.IH" [OF refl False]) simp
    with a have "advanced s (snd (allIndicesOf_loop ?t marker (indices @ [nextOffsetOf s marker])))"
      by (rule advanced_trans)
    then show ?thesis using False by (subst allIndicesOf_loop.simps) (simp add: Let_def)
  qed
qed

lemma allIndicesOf_inv: "stream_inv s \<Longrightarrow> stream_inv (snd (allIndicesOf s marker))"
  unfolding allIndicesOf_def
  by (rule advanced_inv, assumption, rule allIndicesOf_loop_advanced) (simp add: stream_inv_def)

text \<open>
  Claim C4, as the code has it. A stream built from a buffer alone satisfies
  \<open>start \<le> pos \<le> end \<le> len(data)\<close>, and every reader keeps it: \<open>readByte\<close>, \<open>readChar\<close>,
  \<open>peekChar\<close>, \<open>readLine\<close>, \<open>readString\<close> (when it returns), \<open>readS8\<close>, \<open>readU16\<close>,
  \<open>readU32\<close>, \<open>readS16\<close>, the variable-byte readers, the five tagged group readers and
  \<open>allIndicesOf\<close>; \<open>nextOffsetOf\<close> returns an offset and leaves the stream as it is.
  \<open>unreadChar\<close> keeps it when \<open>start < pos\<close>, that is after a read that succeeded.
\<close>

theorem stream_bounds_preserved:
  "stream_inv (ArrayDataStream_of d)
   \<and> (stream_inv s \<longrightarrow>
        stream_inv (snd (readByte s)) \<and> stream_inv (snd (readChar s))
        \<and> stream_inv (snd (peekChar s))
        \<and> (start s < pos s \<longrightarrow> stream_inv (unreadChar s c))
        \<and> stream_inv (snd (readLine s))
        \<and> (\<forall>str t. readString s n = Inr (str, t) \<longrightarrow> stream_inv t)
        \<and> stream_inv (snd (readS8 s)) \<and> stream_inv (snd (readU16 s))
        \<and> stream_inv (snd (readU32 s)) \<and> stream_inv (snd (readS16 s))
        \<and> stream_inv (snd (readUnsignedVB s)) \<and> stream_inv (snd (readSignedVB s))
        \<and> stream_inv (snd (readTag2_3S32 s vals)) \<and> stream_inv (snd (readTag2_3SVariable s vals))
        \<and> stream_inv (snd (readTag8_4S16_v1 s vals)) \<and> stream_inv (snd (readTag8_4S16_v2 s vals))
        \<and> stream_inv (snd (readTag8_8SVB s vals valueCount))
        \<and> stream_inv (snd (allIndicesOf s marker)))"
proof (intro conjI impI allI)
  show "stream_inv (ArrayDataStream_of d)"
    by (simp add: stream_inv_def ArrayDataStream_of_def ArrayDataStream_new_def)
next
  assume "stream_inv s" "start s < pos s"
  then show "stream_inv (unreadChar s c)" by (simp add: stream_inv_def unreadChar_def)
next
  fix str t assume "stream_inv s" "readString s n = Inr (str, t)"
  then show "stream_inv t" by (blast intro: advanced_inv readString_advanced)
next
  assume i: "stream_inv s"
  show "stream_inv (snd (readByte s))"
    using i by (cases "readByte s") (auto intro: advanced_inv readByte_advanced)
  show "stream_inv (snd (readChar s))"
    using i by (cases "readChar s") (auto intro: advanced_inv readChar_advanced)
  show "stream_inv (snd (peekChar s))"
    using i by (cases "peekChar s") (auto intro: advanced_inv peekChar_advanced)
  show "stream_inv (snd (readLine s))" using i readLine_advanced by (rule advanced_inv)
  show "stream_inv (snd (readS8 s))" using i readS8_advanced by (rule advanced_inv)
  show "stream_inv (snd (readU16 s))" using i readU16_advanced by (rule advanced_inv)
  show "stream_inv (snd (readU32 s))" using i readU32_advanced by (rule advanced_inv)
  show "stream_inv (snd (readS16 s))" using i readS16_advanced by (rule advanced_inv)
  show "stream_inv (snd (readUnsignedVB s))"
    using i by (cases "readUnsignedVB s") (auto intro: advanced_inv readUnsignedVB_advanced)
  show "stream_inv (snd (readSignedVB s))"
    using i by (cases "readSignedVB s") (auto intro: advanced_inv readSignedVB_advanced)
  show "stream_inv (snd (readTag2_3S32 s vals))"
    using i readTag2_3S32_advanced by (rule advanced_inv)
  show "stream_inv (snd (readTag2_3SVariable s vals))"
    using i readTag2_3SVariable_advanced by (rule advanced_inv)
  show "stream_inv (snd (readTag8_4S16_v1 s vals))"
    using i readTag8_4S16_v1_advanced by (rule advanced_inv)
  show "stream_inv (snd (readTag8_4S16_v2 s vals))"
    using i readTag8_4S16_v2_advanced by (rule advanced_inv)
  show "stream_inv (snd (readTag8_8SVB s vals valueCount))"
    using i readTag8_8SVB_advanced by (rule advanced_inv)
  show "stream_inv (snd (allIndicesOf s marker))" using i by (rule allIndicesOf_inv)
qed

theorem stream_bounds_preserved_witness:
  "stream_inv (snd (readByte (ArrayDataStream_of [0x48, 0x20])))
   \<and> stream_inv (unreadChar (snd (readChar (ArrayDataStream_of [0x48, 0x20]))) (Chr CHR ''H''))
   \<and> readString (ArrayDataStream_of [0x48, 0x20]) 1
       = Inr (''H'', (ArrayDataStream_of [0x48, 0x20])\<lparr>pos := 1\<rparr>)
   \<and> stream_inv ((ArrayDataStream_of [0x48, 0x20])\<lparr>pos := 1\<rparr>)
   \<and> stream_inv (snd (readU32 (ArrayDataStream_of [0x48, 0x20])))"
proof -
  let ?s = "ArrayDataStream_of [0x48, 0x20]"
  let ?t = "snd (readChar ?s)"
  have s: "stream_inv ?s" using stream_bounds_preserved [of "[0x48, 0x20]" ?s] by simp
  then have t: "stream_inv ?t" using stream_bounds_preserved [of "[]" ?s] by simp
  have lt: "start ?t < pos ?t"
    by (simp add: readChar_def ArrayDataStream_of_def ArrayDataStream_new_def)
  have rs: "readString ?s 1 = Inr (''H'', ?s\<lparr>pos := 1\<rparr>)"
    by (simp add: readString_def readChar_def join_chars_def fromCharCode_def data_at_def
          ArrayDataStream_of_def ArrayDataStream_new_def char_of_def)
  from s t lt rs show ?thesis
    using stream_bounds_preserved [of "[]" ?s _ 1] stream_bounds_preserved [of "[]" ?t "Chr CHR ''H''"]
    by simp
qed

text \<open>
  Claim C4 as stated fails: \<open>unreadChar\<close> only decrements \<open>pos\<close>, so on a stream that is
  at its start it leaves \<open>pos\<close> below \<open>start\<close>.
\<close>

theorem unreadChar_breaks_bounds:
  "stream_inv (ArrayDataStream_of [0x48])
   \<and> \<not> stream_inv (unreadChar (ArrayDataStream_of [0x48]) EofChr)"
  by (simp add: stream_inv_def unreadChar_def ArrayDataStream_of_def ArrayDataStream_new_def)

section \<open>The 8-7-7 layout of readTag2_3SVariable\<close>

text \<open>
  The layout that the comment in the source draws (\<open>ss11 1111 1122 2222 2333 3333\<close>) and
  that the specification describes, written from those words for comparison with the
  method: an 8-bit field from the low six bits of the lead byte and the top two bits of
  the second byte, a 7-bit field from the low six bits of the second byte and the top bit
  of the third, and a 7-bit field from the low seven bits of the third byte.
\<close>

definition spec_fields_877 :: "jsval \<Rightarrow> jsval \<Rightarrow> jsval \<Rightarrow> jsval list" where
  "spec_fields_877 leadByte leadByte2 leadByte3 =
     [signExtend8Bit (js_or (js_shl (js_and leadByte (Num 0x3f)) (Num 2))
                        (js_sar (js_and leadByte2 (Num 0xc0)) (Num 6))),
      signExtend7Bit (js_or (js_shl (js_and leadByte2 (Num 0x3f)) (Num 1))
                        (js_sar (js_and leadByte3 (Num 0x80)) (Num 7))),
      signExtend7Bit (js_and leadByte3 (Num 0x7f))]"

text \<open>
  Claim C5 against the code. The parser hands the reader a fresh array of eight empty
  slots. On the bytes 0x81 0x40 0x80 (selector 2) the layout gives the fields 5, 1 and 0;
  the method leaves slot 0 empty and writes 0 into slot 1.
\<close>

theorem readTag2_3SVariable_selector2:
  "take 3 (fst (readTag2_3SVariable (ArrayDataStream_of [0x81, 0x40, 0x80]) (replicate 8 Undefined)))
     = [Undefined, Num 0, Num 0]
   \<and> spec_fields_877 (Num 0x81) (Num 0x40) (Num 0x80) = [Num 5, Num 1, Num 0]"
  by code_simp

section \<open>Marker search: what allIndicesOf returns\<close>

text \<open>The marker \<open>m\<close> occurs in the buffer at offset \<open>i\<close>.\<close>

definition occurs_at :: "ArrayDataStream \<Rightarrow> int list \<Rightarrow> int \<Rightarrow> bool" where
  "occurs_at s m i = list_all (\<lambda>j. data_at s (i + int j) = Num (m ! j)) [0..<length m]"

lemma occurs_at_iff: "occurs_at s m i = (\<forall>j<length m. data_at s (i + int j) = Num (m ! j))"
  by (auto simp: occurs_at_def list_all_iff)

lemma occurs_at_pos_update [simp]: "occurs_at (s\<lparr>pos := q\<rparr>) m i = occurs_at s m i"
  by (simp add: occurs_at_iff)

text \<open>
  A left-to-right scan for \<open>m\<close> that starts at offset \<open>p\<close> and resumes after the end of
  each match finds exactly the offsets \<open>xs\<close>: each is the first occurrence at or after
  the point where the scan stands, the scan then stands at the end of that occurrence,
  and after the last one no occurrence is left up to \<open>end - len(m)\<close>.
\<close>

fun scanned :: "ArrayDataStream \<Rightarrow> int list \<Rightarrow> int \<Rightarrow> int list \<Rightarrow> bool" where
  "scanned s m p [] = list_all (\<lambda>k. \<not> occurs_at s m k) [p..end' s - int (length m)]"
| "scanned s m p (x # xs) =
     (p \<le> x \<and> x \<le> end' s - int (length m) \<and> occurs_at s m x
      \<and> list_all (\<lambda>k. \<not> occurs_at s m k) [p..x - 1]
      \<and> scanned s m (x + int (length m)) xs)"

lemma scanned_pos_update [simp]: "scanned (s\<lparr>pos := q\<rparr>) m p xs = scanned s m p xs"
  by (induction xs arbitrary: p) simp_all

lemma js_eq_Num: "js_eq v (Num x) = (v = Num x)"
  by (cases v) simp_all

lemma nextOffsetOf_inner_full:
  "j \<le> length m \<Longrightarrow>
     (nextOffsetOf_inner s m i j = length m)
       = (\<forall>k. j \<le> k \<and> k < length m \<longrightarrow> data_at s (i + int k) = Num (m ! k))"
proof (induction s m i j rule: nextOffsetOf_inner.induct)
  case (1 s m i j)
  show ?case
  proof (cases "j < length m \<and> js_eq (data_at s (i + int j)) (array_at m j)")
    case True
    then have here: "data_at s (i + int j) = Num (m ! j)"
      by (auto simp: array_at_def js_eq_Num)
    have e: "nextOffsetOf_inner s m i j = nextOffsetOf_inner s m i (j + 1)"
      using True by (subst nextOffsetOf_inner.simps) simp
    have "(nextOffsetOf_inner s m i (j + 1) = length m)
            = (\<forall>k. j + 1 \<le> k \<and> k < length m \<longrightarrow> data_at s (i + int k) = Num (m ! k))"
      using True by (intro "1.IH") simp_all
    also have "\<dots> = (\<forall>k. j \<le> k \<and> k < length m \<longrightarrow> data_at s (i + int k) = Num (m ! k))"
    proof (intro iffI allI impI)
      fix k
      assume a: "\<forall>k. j + 1 \<le> k \<and> k < length m \<longrightarrow> data_at s (i + int k) = Num (m ! k)"
        and k: "j \<le> k \<and> k < length m"
      show "data_at s (i + int k) = Num (m ! k)"
      proof (cases "k = j")
        case True
        then show ?thesis using here by simp
      next
        case False
        then have "j + 1 \<le> k" using k by simp
        with a k show ?thesis by blast
      qed
    next
      fix k
      assume a: "\<forall>k. j \<le> k \<and> k < length m \<longrightarrow> data_at s (i + int k) = Num (m ! k)"
        and k: "j + 1 \<le> k \<and> k < length m"
      then have "j \<le> k \<and> k < length m" by simp
      with a show "data_at s (i + int k) = Num (m ! k)" by blast
    qed
    finally show ?thesis unfolding e .
  next
    case False
    then have e: "nextOffsetOf_inner s m i j = j"
      by (subst nextOffsetOf_inner.simps) auto
    show ?thesis
    proof (cases "j = length m")
      case True
      then show ?thesis unfolding e by auto
    next
      case ne: False
      then have lt: "j < length m" using "1.prems" by simp
      with False have "data_at s (i + int j) \<noteq> Num (m ! j)"
        by (auto simp: array_at_def js_eq_Num)
      with lt ne show ?thesis unfolding e by auto
    qed
  qed
qed

lemma match_iff_occurs_at:
  assumes "m \<noteq> []"
  shows "(js_eq (data_at s i) (array_at m 0) \<and> nextOffsetOf_inner s m i 1 = length m)
           = occurs_at s m i"
proof -
  have l: "1 \<le> length m" using assms by (cases m) simp_all
  have z: "js_eq (data_at s i) (array_at m 0) = (data_at s (i + int 0) = Num (m ! 0))"
    using assms by (auto simp: array_at_def js_eq_Num)
  have "(data_at s (i + int 0) = Num (m ! 0)
          \<and> (\<forall>k. 1 \<le> k \<and> k < length m \<longrightarrow> data_at s (i + int k) = Num (m ! k)))
        = (\<forall>j<length m. data_at s (i + int j) = Num (m ! j))"
  proof (intro iffI allI impI conjI)
    fix j
    assume a: "data_at s (i + int 0) = Num (m ! 0)
        \<and> (\<forall>k. 1 \<le> k \<and> k < length m \<longrightarrow> data_at s (i + int k) = Num (m ! k))"
      and j: "j < length m"
    show "data_at s (i + int j) = Num (m ! j)"
    proof (cases "j = 0")
      case True
      then show ?thesis using a by simp
    next
      case False
      then have "1 \<le> j" by simp
      with a j show ?thesis by blast
    qed
  next
    assume a: "\<forall>j<length m. data_at s (i + int j) = Num (m ! j)"
    have "0 < length m" using assms by simp
    with a show "data_at s (i + int 0) = Num (m ! 0)" by blast
  next
    fix k
    assume "\<forall>j<length m. data_at s (i + int j) = Num (m ! j)" "1 \<le> k \<and> k < length m"
    then show "data_at s (i + int k) = Num (m ! k)" by blast
  qed
  then show ?thesis
    unfolding z nextOffsetOf_inner_full [OF l] occurs_at_iff .
qed

lemma occurs_at_nonneg:
  assumes "m \<noteq> []" "occurs_at s m i"
  shows "0 \<le> i"
proof (rule ccontr)
  assume "\<not> 0 \<le> i"
  then have "data_at s (i + int 0) = Undefined" by (simp add: data_at_def)
  moreover have "data_at s (i + int 0) = Num (m ! 0)"
  proof -
    have "0 < length m" using assms(1) by simp
    with assms(2) show ?thesis unfolding occurs_at_iff by blast
  qed
  ultimately show False by simp
qed

lemma nextOffsetOf_loop_none:
  "m \<noteq> [] \<Longrightarrow> nextOffsetOf_loop s m i = - 1 \<Longrightarrow> i \<le> k \<Longrightarrow> k \<le> end' s - int (length m)
     \<Longrightarrow> \<not> occurs_at s m k"
proof (induction s m i rule: nextOffsetOf_loop.induct)
  case (1 s m i)
  have inside: "i \<le> end' s - int (length m)" using "1.prems" by simp
  show ?case
  proof (cases "occurs_at s m i")
    case True
    then have "nextOffsetOf_loop s m i = i"
      using inside match_iff_occurs_at [OF "1.prems"(1), of s i]
      by (subst nextOffsetOf_loop.simps) simp
    with "1.prems"(2) have "i = - 1" by simp
    with occurs_at_nonneg [OF "1.prems"(1) True] show ?thesis by simp
  next
    case False
    then have nm: "\<not> (js_eq (data_at s i) (array_at m 0) \<and> nextOffsetOf_inner s m i 1 = length m)"
      using match_iff_occurs_at [OF "1.prems"(1), of s i] by simp
    then have e: "nextOffsetOf_loop s m i = nextOffsetOf_loop s m (i + 1)"
      using inside by (subst nextOffsetOf_loop.simps) auto
    show ?thesis
    proof (cases "k = i")
      case True
      with False show ?thesis by simp
    next
      case ne: False
      then have "i + 1 \<le> k" using "1.prems"(3) by simp
      with "1.IH" [OF inside nm "1.prems"(1)] e "1.prems"(2,4) show ?thesis by simp
    qed
  qed
qed

lemma nextOffsetOf_loop_first:
  "m \<noteq> [] \<Longrightarrow> nextOffsetOf_loop s m i \<noteq> - 1 \<Longrightarrow>
     occurs_at s m (nextOffsetOf_loop s m i)
     \<and> (\<forall>k. i \<le> k \<and> k < nextOffsetOf_loop s m i \<longrightarrow> \<not> occurs_at s m k)"
proof (induction s m i rule: nextOffsetOf_loop.induct)
  case (1 s m i)
  have inside: "i \<le> end' s - int (length m)"
  proof (rule ccontr)
    assume "\<not> i \<le> end' s - int (length m)"
    then have "nextOffsetOf_loop s m i = - 1" by (subst nextOffsetOf_loop.simps) simp
    with "1.prems"(2) show False by simp
  qed
  show ?case
  proof (cases "occurs_at s m i")
    case True
    then have "nextOffsetOf_loop s m i = i"
      using inside match_iff_occurs_at [OF "1.prems"(1), of s i]
      by (subst nextOffsetOf_loop.simps) simp
    with True show ?thesis by auto
  next
    case False
    then have nm: "\<not> (js_eq (data_at s i) (array_at m 0) \<and> nextOffsetOf_inner s m i 1 = length m)"
      using match_iff_occurs_at [OF "1.prems"(1), of s i] by simp
    then have e: "nextOffsetOf_loop s m i = nextOffsetOf_loop s m (i + 1)"
      using inside by (subst nextOffsetOf_loop.simps) auto
    from "1.IH" [OF inside nm "1.prems"(1)] "1.prems"(2) e
    have ih: "occurs_at s m (nextOffsetOf_loop s m (i + 1))"
      "\<forall>k. i + 1 \<le> k \<and> k < nextOffsetOf_loop s m (i + 1) \<longrightarrow> \<not> occurs_at s m k"
      by simp_all
    have "\<not> occurs_at s m k" if "i \<le> k" "k < nextOffsetOf_loop s m (i + 1)" for k
    proof (cases "k = i")
      case True
      with False show ?thesis by simp
    next
      case ne: False
      with that have "i + 1 \<le> k" by simp
      with ih(2) that show ?thesis by blast
    qed
    with ih(1) show ?thesis unfolding e by blast
  qed
qed

lemma allIndicesOf_loop_spec:
  "m \<noteq> [] \<Longrightarrow>
   \<exists>xs. fst (allIndicesOf_loop s m acc) = acc @ xs @ [end' s]
      \<and> sorted_wrt (<) xs
      \<and> sorted_wrt (\<lambda>a b. a + int (length m) \<le> b) xs
      \<and> scanned s m (pos s) xs
      \<and> (\<forall>x\<in>set xs. pos s \<le> x \<and> x \<le> end' s - int (length m) \<and> occurs_at s m x)
      \<and> (\<forall>i. pos s \<le> i \<and> i \<le> end' s - int (length m) \<and> occurs_at s m i
             \<longrightarrow> i \<in> set xs \<or> (\<exists>x\<in>set xs. x < i \<and> i < x + int (length m)))"
proof (induction s m acc rule: allIndicesOf_loop.induct)
  case (1 s m acc)
  let ?index = "nextOffsetOf s m"
  let ?len = "int (length m)"
  have len: "0 < ?len" using "1.prems" by simp
  show ?case
  proof (cases "?index = - 1")
    case True
    then have r: "fst (allIndicesOf_loop s m acc) = acc @ [] @ [end' s]"
      by (subst allIndicesOf_loop.simps) simp
    have none: "\<not> occurs_at s m i" if "pos s \<le> i" "i \<le> end' s - ?len" for i
      using nextOffsetOf_loop_none [OF "1.prems", of s "pos s" i] True that
      by (simp add: nextOffsetOf_def)
    have sc: "scanned s m (pos s) []" using none by (simp add: list_all_iff)
    show ?thesis
      by (rule exI [of _ "[]"]) (use r none sc in auto)
  next
    case False
    let ?t = "s\<lparr>pos := ?index + ?len\<rparr>"
    have ne: "nextOffsetOf_loop s m (pos s) \<noteq> - 1" using False by (simp add: nextOffsetOf_def)
    from nextOffsetOf_loop_found [OF ne]
    have b: "pos s \<le> ?index" "?index \<le> end' s - ?len" by (simp_all add: nextOffsetOf_def)
    from nextOffsetOf_loop_first [OF "1.prems" ne]
    have f: "occurs_at s m ?index" "\<And>k. pos s \<le> k \<Longrightarrow> k < ?index \<Longrightarrow> \<not> occurs_at s m k"
      by (simp_all add: nextOffsetOf_def)
    from "1.IH" [OF refl False "1.prems"]
    obtain xs where xs:
      "fst (allIndicesOf_loop ?t m (acc @ [?index])) = (acc @ [?index]) @ xs @ [end' ?t]"
      "sorted_wrt (<) xs"
      "\<forall>x\<in>set xs. pos ?t \<le> x \<and> x \<le> end' ?t - ?len \<and> occurs_at ?t m x"
      "\<forall>i. pos ?t \<le> i \<and> i \<le> end' ?t - ?len \<and> occurs_at ?t m i
           \<longrightarrow> i \<in> set xs \<or> (\<exists>x\<in>set xs. x < i \<and> i < x + ?len)"
      "sorted_wrt (\<lambda>a b. a + ?len \<le> b) xs"
      "scanned ?t m (pos ?t) xs"
      by blast
    have r: "fst (allIndicesOf_loop s m acc) = acc @ (?index # xs) @ [end' s]"
      using False xs(1) by (subst allIndicesOf_loop.simps) (simp add: Let_def)
    have apart: "?index + ?len \<le> x" if "x \<in> set xs" for x
    proof -
      from xs(3) that have "pos ?t \<le> x" by blast
      then show ?thesis by simp
    qed
    have after: "?index < x" if "x \<in> set xs" for x
      using apart [OF that] len by linarith
    have s: "sorted_wrt (<) (?index # xs)" using xs(2) after by simp
    have g: "sorted_wrt (\<lambda>a b. a + ?len \<le> b) (?index # xs)" using xs(5) apart by simp
    have sc: "scanned s m (pos s) (?index # xs)"
      using xs(6) b f by (simp add: list_all_iff)
    have sound: "\<forall>x\<in>set (?index # xs). pos s \<le> x \<and> x \<le> end' s - ?len \<and> occurs_at s m x"
    proof
      fix x assume "x \<in> set (?index # xs)"
      then consider "x = ?index" | "x \<in> set xs" by auto
      then show "pos s \<le> x \<and> x \<le> end' s - ?len \<and> occurs_at s m x"
      proof cases
        case 1
        then show ?thesis using b f(1) by simp
      next
        case 2
        with xs(3) have "pos ?t \<le> x \<and> x \<le> end' ?t - ?len \<and> occurs_at ?t m x" by blast
        then show ?thesis using b len by simp
      qed
    qed
    have complete: "\<forall>i. pos s \<le> i \<and> i \<le> end' s - ?len \<and> occurs_at s m i
           \<longrightarrow> i \<in> set (?index # xs) \<or> (\<exists>x\<in>set (?index # xs). x < i \<and> i < x + ?len)"
    proof (intro allI impI)
      fix i assume i: "pos s \<le> i \<and> i \<le> end' s - ?len \<and> occurs_at s m i"
      then have ge: "?index \<le> i" using f(2) [of i] by force
      consider "i = ?index" | "?index < i" "i < ?index + ?len" | "?index + ?len \<le> i"
        using ge by linarith
      then show "i \<in> set (?index # xs) \<or> (\<exists>x\<in>set (?index # xs). x < i \<and> i < x + ?len)"
      proof cases
        case 1
        then show ?thesis by simp
      next
        case 2
        then show ?thesis by auto
      next
        case 3
        with i have "pos ?t \<le> i \<and> i \<le> end' ?t - ?len \<and> occurs_at ?t m i" by simp
        with xs(4) have "i \<in> set xs \<or> (\<exists>x\<in>set xs. x < i \<and> i < x + ?len)" by blast
        then show ?thesis by auto
      qed
    qed
    show ?thesis
      by (rule exI [of _ "?index # xs"]) (use r s g sc sound complete in blast)
  qed
qed

text \<open>
  Claim C6, as the code has it. For a non-empty marker, \<open>allIndicesOf\<close> returns a strictly
  increasing list that ends with \<open>end\<close>. The entries before \<open>end\<close> are offsets in
  \<open>[pos, end - len(marker)]\<close> at which the marker occurs. The search resumes after the end
  of each match (\<open>scanned\<close>): each entry is the first occurrence at or after the point
  where the scan stands, which is \<open>pos\<close> at first and then the end of the match before.
  So two entries that follow each other are at least \<open>len(marker)\<close> apart, the
  occurrences returned do not overlap, and an occurrence in that range is either returned
  or overlaps a returned occurrence that starts before it.
\<close>

theorem allIndicesOf_result:
  assumes "marker \<noteq> []"
  shows "fst (allIndicesOf s marker) \<noteq> []
    \<and> last (fst (allIndicesOf s marker)) = end' s
    \<and> sorted_wrt (<) (fst (allIndicesOf s marker))
    \<and> sorted_wrt (\<lambda>a b. a + int (length marker) \<le> b) (fst (allIndicesOf s marker))
    \<and> scanned s marker (pos s) (butlast (fst (allIndicesOf s marker)))
    \<and> (\<forall>x\<in>set (butlast (fst (allIndicesOf s marker))).
          pos s \<le> x \<and> x \<le> end' s - int (length marker) \<and> occurs_at s marker x)
    \<and> (\<forall>i. pos s \<le> i \<and> i \<le> end' s - int (length marker) \<and> occurs_at s marker i
          \<longrightarrow> i \<in> set (butlast (fst (allIndicesOf s marker)))
              \<or> (\<exists>x\<in>set (butlast (fst (allIndicesOf s marker))).
                    x < i \<and> i < x + int (length marker)))"
proof -
  from allIndicesOf_loop_spec [OF assms, of s "[]"]
  obtain xs where xs:
    "fst (allIndicesOf s marker) = xs @ [end' s]"
    "sorted_wrt (<) xs"
    "sorted_wrt (\<lambda>a b. a + int (length marker) \<le> b) xs"
    "\<forall>x\<in>set xs. pos s \<le> x \<and> x \<le> end' s - int (length marker) \<and> occurs_at s marker x"
    "\<forall>i. pos s \<le> i \<and> i \<le> end' s - int (length marker) \<and> occurs_at s marker i
         \<longrightarrow> i \<in> set xs \<or> (\<exists>x\<in>set xs. x < i \<and> i < x + int (length marker))"
    "scanned s marker (pos s) xs"
    unfolding allIndicesOf_def by auto
  have len: "0 < int (length marker)" using assms by simp
  have le: "x + int (length marker) \<le> end' s" if "x \<in> set xs" for x
  proof -
    from xs(4) that have "x \<le> end' s - int (length marker)" by blast
    then show ?thesis by linarith
  qed
  have "x < end' s" if "x \<in> set xs" for x
    using le [OF that] len by linarith
  then have a: "sorted_wrt (<) (xs @ [end' s])"
    using xs(2) by (simp add: sorted_wrt_append)
  have b: "sorted_wrt (\<lambda>a b. a + int (length marker) \<le> b) (xs @ [end' s])"
    using xs(3) le by (simp add: sorted_wrt_append)
  from xs(1,4,5,6) a b show ?thesis by simp
qed

theorem allIndicesOf_result_witness:
  "fst (allIndicesOf (ArrayDataStream_of [97, 98, 97, 98, 99]) [97, 98]) = [0, 2, 5]
   \<and> last (fst (allIndicesOf (ArrayDataStream_of [97, 98, 97, 98, 99]) [97, 98])) = 5
   \<and> sorted_wrt (<) (fst (allIndicesOf (ArrayDataStream_of [97, 98, 97, 98, 99]) [97, 98]))
   \<and> sorted_wrt (\<lambda>a b. a + 2 \<le> b)
       (fst (allIndicesOf (ArrayDataStream_of [97, 98, 97, 98, 99]) [97, 98]))
   \<and> scanned (ArrayDataStream_of [97, 98, 97, 98, 99]) [97, 98] 0 [0, 2]"
proof -
  have e: "fst (allIndicesOf (ArrayDataStream_of [97, 98, 97, 98, 99]) [97, 98]) = [0, 2, 5]"
    by code_simp
  have n: "[97, 98] \<noteq> ([] :: int list)" by simp
  from allIndicesOf_result [OF n, of "ArrayDataStream_of [97, 98, 97, 98, 99]"] e
  show ?thesis by (simp add: ArrayDataStream_of_def ArrayDataStream_new_def)
qed

text \<open>
  Claim C6 as stated fails for a marker that can overlap itself: in the bytes \<open>aaa\<close> the
  marker \<open>aa\<close> occurs at the offsets 0 and 1, both in \<open>[pos, end - 2]\<close>, and the result is
  \<open>[0, 3]\<close>.
\<close>

theorem allIndicesOf_skips_overlap:
  "fst (allIndicesOf (ArrayDataStream_of [97, 97, 97]) [97, 97]) = [0, 3]
   \<and> occurs_at (ArrayDataStream_of [97, 97, 97]) [97, 97] 1
   \<and> pos (ArrayDataStream_of [97, 97, 97]) \<le> 1
   \<and> 1 \<le> end' (ArrayDataStream_of [97, 97, 97]) - int (length [97 :: int, 97])"
  by code_simp

section \<open>Binary searches over the chunk times (utils/Utils.ts)\<close>

text \<open>
  The lists searched are the times of a directory, numbers that are integers. \<open>list[mid]\<close>
  is \<open>undefined\<close> outside the list, equal to nothing and smaller or larger than nothing.
  The loop variables \<open>min\<close> and \<open>max\<close> of the source are \<open>min'\<close> and \<open>max'\<close> here.
\<close>

definition list_at :: "int list \<Rightarrow> int \<Rightarrow> jsval" where
  "list_at list i = (if 0 \<le> i \<and> i < int (length list) then Num (list ! nat i) else Undefined)"

function binarySearchOrPrevious_loop :: "int list \<Rightarrow> int \<Rightarrow> int \<Rightarrow> int \<Rightarrow> int \<Rightarrow> int" where
  "binarySearchOrPrevious_loop list item min' max' result =
     (if min' < max' then
        (let mid = (min' + max') div 2 in
         if list_at list mid = Num item then mid
         else if js_lt (list_at list mid) (Num item)
           then binarySearchOrPrevious_loop list item (mid + 1) max' mid
           else binarySearchOrPrevious_loop list item min' mid result)
      else result)"
  by pat_completeness auto
termination
  by (relation "measure (\<lambda>(list, item, min', max', result). nat (max' - min'))") auto

declare binarySearchOrPrevious_loop.simps [simp del]

definition binarySearchOrPrevious :: "int list \<Rightarrow> int \<Rightarrow> int" where
  "binarySearchOrPrevious list item =
     binarySearchOrPrevious_loop list item 0 (int (length list)) 0"

function binarySearchOrNext_loop :: "int list \<Rightarrow> int \<Rightarrow> int \<Rightarrow> int \<Rightarrow> int \<Rightarrow> int" where
  "binarySearchOrNext_loop list item min' max' result =
     (if min' < max' then
        (let mid = (min' + max') div 2 in
         if list_at list mid = Num item then mid
         else if js_lt (Num item) (list_at list mid)
           then binarySearchOrNext_loop list item min' mid mid
           else binarySearchOrNext_loop list item (mid + 1) max' result)
      else result)"
  by pat_completeness auto
termination
  by (relation "measure (\<lambda>(list, item, min', max', result). nat (max' - min'))") auto

declare binarySearchOrNext_loop.simps [simp del]

definition binarySearchOrNext :: "int list \<Rightarrow> int \<Rightarrow> int" where
  "binarySearchOrNext list item =
     binarySearchOrNext_loop list item 0 (int (length list)) (int (length list) - 1)"

lemma mid_between:
  fixes lo hi :: int
  assumes "lo < hi"
  shows "lo \<le> (lo + hi) div 2" "(lo + hi) div 2 < hi"
  using assms by linarith+

lemma list_at_inside: "0 \<le> i \<Longrightarrow> i < int (length list) \<Longrightarrow> list_at list i = Num (list ! nat i)"
  by (simp add: list_at_def)

lemma binarySearchOrPrevious_loop_bounds:
  "0 \<le> min' \<Longrightarrow> max' \<le> int (length list) \<Longrightarrow> 0 \<le> result \<Longrightarrow> result < int (length list)
     \<Longrightarrow> 0 \<le> binarySearchOrPrevious_loop list item min' max' result
         \<and> binarySearchOrPrevious_loop list item min' max' result < int (length list)"
proof (induction list item min' max' result rule: binarySearchOrPrevious_loop.induct)
  case (1 list item min' max' result)
  show ?case
  proof (cases "min' < max'")
    case False
    then have "binarySearchOrPrevious_loop list item min' max' result = result"
      by (subst binarySearchOrPrevious_loop.simps) simp
    with "1.prems" show ?thesis by simp
  next
    case True
    let ?mid = "(min' + max') div 2"
    note m = mid_between [OF True]
    have mr: "0 \<le> ?mid" "?mid < int (length list)" using m "1.prems" by linarith+
    consider (eq) "list_at list ?mid = Num item"
      | (lt) "list_at list ?mid \<noteq> Num item" "js_lt (list_at list ?mid) (Num item)"
      | (gt) "list_at list ?mid \<noteq> Num item" "\<not> js_lt (list_at list ?mid) (Num item)"
      by blast
    then show ?thesis
    proof cases
      case eq
      then have "binarySearchOrPrevious_loop list item min' max' result = ?mid"
        using True by (subst binarySearchOrPrevious_loop.simps) (simp add: Let_def)
      with mr show ?thesis by simp
    next
      case lt
      then have e: "binarySearchOrPrevious_loop list item min' max' result
                  = binarySearchOrPrevious_loop list item (?mid + 1) max' ?mid"
        using True by (subst binarySearchOrPrevious_loop.simps) (simp add: Let_def)
      show ?thesis unfolding e
        using mr "1.prems" by (intro "1.IH"(1) [OF True refl lt]) simp_all
    next
      case gt
      then have e: "binarySearchOrPrevious_loop list item min' max' result
                  = binarySearchOrPrevious_loop list item min' ?mid result"
        using True by (subst binarySearchOrPrevious_loop.simps) (simp add: Let_def)
      show ?thesis unfolding e
        using mr "1.prems" by (intro "1.IH"(2) [OF True refl gt]) simp_all
    qed
  qed
qed

lemma binarySearchOrPrevious_loop_smaller:
  "\<forall>x\<in>set list. item < x \<Longrightarrow> 0 \<le> min' \<Longrightarrow> max' \<le> int (length list)
     \<Longrightarrow> binarySearchOrPrevious_loop list item min' max' result = result"
proof (induction list item min' max' result rule: binarySearchOrPrevious_loop.induct)
  case (1 list item min' max' result)
  show ?case
  proof (cases "min' < max'")
    case False
    then show ?thesis by (subst binarySearchOrPrevious_loop.simps) simp
  next
    case True
    let ?mid = "(min' + max') div 2"
    note m = mid_between [OF True]
    have mr: "0 \<le> ?mid" "?mid < int (length list)" using m "1.prems" by linarith+
    then have "list ! nat ?mid \<in> set list" by simp
    with "1.prems"(1) have big: "item < list ! nat ?mid" by blast
    have at: "list_at list ?mid = Num (list ! nat ?mid)" using mr by (rule list_at_inside)
    have ne: "list_at list ?mid \<noteq> Num item" and nl: "\<not> js_lt (list_at list ?mid) (Num item)"
      using big unfolding at by simp_all
    have e: "binarySearchOrPrevious_loop list item min' max' result
                  = binarySearchOrPrevious_loop list item min' ?mid result"
      using True ne nl by (subst binarySearchOrPrevious_loop.simps) (simp add: Let_def)
    show ?thesis unfolding e
      using mr "1.prems" by (intro "1.IH"(2) [OF True refl ne nl]) simp_all
  qed
qed

text \<open>
  \<open>r\<close> is an index of \<open>item\<close>, or, when \<open>item\<close> is not in the list, an index of the
  largest element smaller than \<open>item\<close>.
\<close>

definition found_or_previous :: "int list \<Rightarrow> int \<Rightarrow> int \<Rightarrow> bool" where
  "found_or_previous list item r =
     (0 \<le> r \<and> r < int (length list)
      \<and> (list ! nat r = item
          \<or> (item \<notin> set list \<and> list ! nat r < item
              \<and> (\<forall>x\<in>set list. x < item \<longrightarrow> x \<le> list ! nat r))))"

lemma binarySearchOrPrevious_loop_sorted:
  "sorted list \<Longrightarrow> \<exists>x\<in>set list. x \<le> item \<Longrightarrow>
   0 \<le> min' \<Longrightarrow> min' \<le> max' \<Longrightarrow> max' \<le> int (length list) \<Longrightarrow>
   \<forall>i<length list. int i < min' \<longrightarrow> list ! i < item \<Longrightarrow>
   \<forall>i<length list. max' \<le> int i \<longrightarrow> item < list ! i \<Longrightarrow>
   (0 < min' \<longrightarrow> result = min' - 1) \<Longrightarrow>
   found_or_previous list item (binarySearchOrPrevious_loop list item min' max' result)"
proof (induction list item min' max' result rule: binarySearchOrPrevious_loop.induct)
  case (1 list item min' max' result)
  note srt = sorted_nth_mono [OF "1.prems"(1)]
  show ?case
  proof (cases "min' < max'")
    case False
    then have e: "binarySearchOrPrevious_loop list item min' max' result = result"
      by (subst binarySearchOrPrevious_loop.simps) simp
    from False "1.prems"(4) have mm: "max' = min'" by simp
    have split: "list ! i < item \<or> item < list ! i" if "i < length list" for i
      using "1.prems"(6,7) that unfolding mm by (cases "int i < min'") auto
    have notin: "item \<notin> set list"
    proof
      assume "item \<in> set list"
      then obtain i where "i < length list" "list ! i = item" by (auto simp: in_set_conv_nth)
      with split [of i] show False by simp
    qed
    have pos: "0 < min'"
    proof (rule ccontr)
      assume "\<not> 0 < min'"
      then have z: "min' = 0" using "1.prems"(3) by simp
      from "1.prems"(2) obtain i where i: "i < length list" "list ! i \<le> item"
        by (auto simp: in_set_conv_nth)
      with "1.prems"(7) z mm have "item < list ! i" by auto
      with i show False by simp
    qed
    then have r: "result = min' - 1" using "1.prems"(8) by simp
    have rb: "0 \<le> result" "result < int (length list)" using r pos "1.prems"(5) mm by simp_all
    have rl: "list ! nat result < item" using "1.prems"(6) rb r by simp
    have best: "x \<le> list ! nat result" if "x \<in> set list" "x < item" for x
    proof -
      from that(1) obtain i where i: "i < length list" "list ! i = x" by (auto simp: in_set_conv_nth)
      have "int i < min'"
      proof (rule ccontr)
        assume "\<not> int i < min'"
        with "1.prems"(7) i mm have "item < x" by auto
        with that(2) show False by simp
      qed
      then have "i \<le> nat result" using r by simp
      then have "list ! i \<le> list ! nat result" using rb by (intro srt) simp_all
      with i show ?thesis by simp
    qed
    show ?thesis unfolding e found_or_previous_def
      using rb rl notin best by blast
  next
    case True
    let ?mid = "(min' + max') div 2"
    note m = mid_between [OF True]
    have mr: "0 \<le> ?mid" "?mid < int (length list)" using m "1.prems" by linarith+
    have at: "list_at list ?mid = Num (list ! nat ?mid)" using mr by (rule list_at_inside)
    consider (eq) "list ! nat ?mid = item" | (lt) "list ! nat ?mid < item" | (gt) "item < list ! nat ?mid"
      by linarith
    then show ?thesis
    proof cases
      case eq
      then have "binarySearchOrPrevious_loop list item min' max' result = ?mid"
        using True at by (subst binarySearchOrPrevious_loop.simps) (simp add: Let_def)
      with mr eq show ?thesis by (simp add: found_or_previous_def)
    next
      case lt
      then have ne: "list_at list ?mid \<noteq> Num item" and l: "js_lt (list_at list ?mid) (Num item)"
        unfolding at by simp_all
      have e: "binarySearchOrPrevious_loop list item min' max' result
                  = binarySearchOrPrevious_loop list item (?mid + 1) max' ?mid"
        using True ne l by (subst binarySearchOrPrevious_loop.simps) (simp add: Let_def)
      have below: "\<forall>i<length list. int i < ?mid + 1 \<longrightarrow> list ! i < item"
      proof (intro allI impI)
        fix i assume i: "i < length list" "int i < ?mid + 1"
        then have "i \<le> nat ?mid" by simp
        then have "list ! i \<le> list ! nat ?mid" using mr by (intro srt) simp_all
        with lt show "list ! i < item" by simp
      qed
      show ?thesis unfolding e
        using mr m "1.prems" below
        by (intro "1.IH"(1) [OF True refl ne l]) simp_all
    next
      case gt
      then have ne: "list_at list ?mid \<noteq> Num item" and nl: "\<not> js_lt (list_at list ?mid) (Num item)"
        unfolding at by simp_all
      have e: "binarySearchOrPrevious_loop list item min' max' result
                  = binarySearchOrPrevious_loop list item min' ?mid result"
        using True ne nl by (subst binarySearchOrPrevious_loop.simps) (simp add: Let_def)
      have above: "\<forall>i<length list. ?mid \<le> int i \<longrightarrow> item < list ! i"
      proof (intro allI impI)
        fix i assume i: "i < length list" "?mid \<le> int i"
        then have "nat ?mid \<le> i" by simp
        then have "list ! nat ?mid \<le> list ! i" using i by (intro srt) simp_all
        with gt show "item < list ! i" by simp
      qed
      show ?thesis unfolding e
        using mr m "1.prems" above
        by (intro "1.IH"(2) [OF True refl ne nl]) simp_all
    qed
  qed
qed

lemma binarySearchOrNext_loop_bounds:
  "0 \<le> min' \<Longrightarrow> max' \<le> int (length list) \<Longrightarrow> 0 \<le> result \<Longrightarrow> result < int (length list)
     \<Longrightarrow> 0 \<le> binarySearchOrNext_loop list item min' max' result
         \<and> binarySearchOrNext_loop list item min' max' result < int (length list)"
proof (induction list item min' max' result rule: binarySearchOrNext_loop.induct)
  case (1 list item min' max' result)
  show ?case
  proof (cases "min' < max'")
    case False
    then have "binarySearchOrNext_loop list item min' max' result = result"
      by (subst binarySearchOrNext_loop.simps) simp
    with "1.prems" show ?thesis by simp
  next
    case True
    let ?mid = "(min' + max') div 2"
    note m = mid_between [OF True]
    have mr: "0 \<le> ?mid" "?mid < int (length list)" using m "1.prems" by linarith+
    consider (eq) "list_at list ?mid = Num item"
      | (gt) "list_at list ?mid \<noteq> Num item" "js_lt (Num item) (list_at list ?mid)"
      | (lt) "list_at list ?mid \<noteq> Num item" "\<not> js_lt (Num item) (list_at list ?mid)"
      by blast
    then show ?thesis
    proof cases
      case eq
      then have "binarySearchOrNext_loop list item min' max' result = ?mid"
        using True by (subst binarySearchOrNext_loop.simps) (simp add: Let_def)
      with mr show ?thesis by simp
    next
      case gt
      then have e: "binarySearchOrNext_loop list item min' max' result
                  = binarySearchOrNext_loop list item min' ?mid ?mid"
        using True by (subst binarySearchOrNext_loop.simps) (simp add: Let_def)
      show ?thesis unfolding e
        using mr "1.prems" by (intro "1.IH"(1) [OF True refl gt]) simp_all
    next
      case lt
      then have e: "binarySearchOrNext_loop list item min' max' result
                  = binarySearchOrNext_loop list item (?mid + 1) max' result"
        using True by (subst binarySearchOrNext_loop.simps) (simp add: Let_def)
      show ?thesis unfolding e
        using mr "1.prems" by (intro "1.IH"(2) [OF True refl lt]) simp_all
    qed
  qed
qed

lemma binarySearchOrNext_loop_larger:
  "\<forall>x\<in>set list. x < item \<Longrightarrow> 0 \<le> min' \<Longrightarrow> max' \<le> int (length list)
     \<Longrightarrow> binarySearchOrNext_loop list item min' max' result = result"
proof (induction list item min' max' result rule: binarySearchOrNext_loop.induct)
  case (1 list item min' max' result)
  show ?case
  proof (cases "min' < max'")
    case False
    then show ?thesis by (subst binarySearchOrNext_loop.simps) simp
  next
    case True
    let ?mid = "(min' + max') div 2"
    note m = mid_between [OF True]
    have mr: "0 \<le> ?mid" "?mid < int (length list)" using m "1.prems" by linarith+
    then have "list ! nat ?mid \<in> set list" by simp
    with "1.prems"(1) have small: "list ! nat ?mid < item" by blast
    have at: "list_at list ?mid = Num (list ! nat ?mid)" using mr by (rule list_at_inside)
    have ne: "list_at list ?mid \<noteq> Num item" and nl: "\<not> js_lt (Num item) (list_at list ?mid)"
      using small unfolding at by simp_all
    have e: "binarySearchOrNext_loop list item min' max' result
                  = binarySearchOrNext_loop list item (?mid + 1) max' result"
      using True ne nl by (subst binarySearchOrNext_loop.simps) (simp add: Let_def)
    show ?thesis unfolding e
      using mr "1.prems" by (intro "1.IH"(2) [OF True refl ne nl]) simp_all
  qed
qed

text \<open>
  Claim C10, as the code has it. For every non-empty list both searches return an index
  in \<open>[0, length - 1]\<close>; \<open>binarySearchOrPrevious\<close> returns 0 when \<open>item\<close> is smaller than
  all elements, and \<open>binarySearchOrNext\<close> returns \<open>length - 1\<close> when \<open>item\<close> is larger than
  all elements; on the empty list they return 0 and -1. When the list is sorted and some
  element is not larger than \<open>item\<close>, \<open>binarySearchOrPrevious\<close> returns an index of \<open>item\<close>
  or, if \<open>item\<close> is not in the list, of the largest element smaller than \<open>item\<close>.
\<close>

theorem binarySearch_bounds:
  "(list \<noteq> [] \<longrightarrow> 0 \<le> binarySearchOrPrevious list item
        \<and> binarySearchOrPrevious list item \<le> int (length list) - 1)
   \<and> ((\<forall>x\<in>set list. item < x) \<longrightarrow> binarySearchOrPrevious list item = 0)
   \<and> (sorted list \<and> (\<exists>x\<in>set list. x \<le> item)
        \<longrightarrow> found_or_previous list item (binarySearchOrPrevious list item))
   \<and> (list \<noteq> [] \<longrightarrow> 0 \<le> binarySearchOrNext list item
        \<and> binarySearchOrNext list item \<le> int (length list) - 1)
   \<and> ((\<forall>x\<in>set list. x < item) \<longrightarrow> binarySearchOrNext list item = int (length list) - 1)
   \<and> binarySearchOrPrevious [] item = 0
   \<and> binarySearchOrNext [] item = - 1"
proof (intro conjI impI)
  assume "list \<noteq> []"
  then have "0 \<le> binarySearchOrPrevious list item
      \<and> binarySearchOrPrevious list item < int (length list)"
    unfolding binarySearchOrPrevious_def
    by (intro binarySearchOrPrevious_loop_bounds) simp_all
  then show "0 \<le> binarySearchOrPrevious list item"
    and "binarySearchOrPrevious list item \<le> int (length list) - 1" by simp_all
next
  assume "\<forall>x\<in>set list. item < x"
  then show "binarySearchOrPrevious list item = 0"
    unfolding binarySearchOrPrevious_def
    by (intro binarySearchOrPrevious_loop_smaller) simp_all
next
  assume "sorted list \<and> (\<exists>x\<in>set list. x \<le> item)"
  then show "found_or_previous list item (binarySearchOrPrevious list item)"
    unfolding binarySearchOrPrevious_def
    by (intro binarySearchOrPrevious_loop_sorted) simp_all
next
  assume "list \<noteq> []"
  then have "0 \<le> binarySearchOrNext list item
      \<and> binarySearchOrNext list item < int (length list)"
    unfolding binarySearchOrNext_def
    by (intro binarySearchOrNext_loop_bounds) simp_all
  then show "0 \<le> binarySearchOrNext list item"
    and "binarySearchOrNext list item \<le> int (length list) - 1" by simp_all
next
  assume "\<forall>x\<in>set list. x < item"
  then show "binarySearchOrNext list item = int (length list) - 1"
    unfolding binarySearchOrNext_def
    by (intro binarySearchOrNext_loop_larger) simp_all
next
  show "binarySearchOrPrevious [] item = 0"
    unfolding binarySearchOrPrevious_def
    by (subst binarySearchOrPrevious_loop.simps) simp
next
  show "binarySearchOrNext [] item = - 1"
    unfolding binarySearchOrNext_def
    by (subst binarySearchOrNext_loop.simps) simp
qed

theorem binarySearch_bounds_witness:
  "found_or_previous [10, 20, 30, 40] 25 (binarySearchOrPrevious [10, 20, 30, 40] 25)
   \<and> 0 \<le> binarySearchOrNext [10, 20, 30, 40] 25 \<and> binarySearchOrNext [10, 20, 30, 40] 25 \<le> 3
   \<and> binarySearchOrPrevious [10, 20, 30, 40] 5 = 0
   \<and> binarySearchOrNext [10, 20, 30, 40] 45 = 3"
  using binarySearch_bounds [of "[10, 20, 30, 40]" 25]
    binarySearch_bounds [of "[10, 20, 30, 40]" 5]
    binarySearch_bounds [of "[10, 20, 30, 40]" 45]
  by simp

text \<open>
  Claim C10 as stated, for every list, fails on a list that is not sorted: in
  \<open>[1, 5, 2, 0]\<close> the item 3 is absent and its largest smaller element is 2, at index 2;
  the search returns index 3, where the element is 0.
\<close>

theorem binarySearchOrPrevious_unsorted:
  "binarySearchOrPrevious [1, 5, 2, 0] 3 = 3
   \<and> \<not> found_or_previous [1, 5, 2, 0] 3 (binarySearchOrPrevious [1, 5, 2, 0] 3)
   \<and> \<not> (\<forall>x\<in>set [1, 5, 2, 0]. (3 :: int) < x)"
  by code_simp

section \<open>Indexing a sub-log (FlightLogIndex.ts)\<close>

text \<open>
  \<open>_parseSubLog\<close> drives the parser and listens to it. The parser is the environment
  here: what \<open>parseHeader\<close> does (it throws a text, or it leaves the frame definitions),
  the calls of \<open>onFrameReady\<close> that \<open>parseLogData\<close> makes, in order, and the text that
  \<open>parseLogData\<close> throws at the end, if any, are inputs. The parser calls \<open>onFrameReady\<close>
  with the current main frame (an array) for \<open>I\<close> and \<open>P\<close>, with the slow frame (an array)
  for \<open>S\<close>, with the event object for \<open>E\<close>, and with \<open>null\<close> for a corrupt frame, which
  it reports as not valid. A property read on \<open>null\<close>, or \<open>slice\<close> on an event object, throws
  a TypeError, whose text is the engine's and is a parameter; the \<open>try\<close> around
  \<open>parseLogData\<close> catches it into \<open>error\<close> like any other.
\<close>

datatype frame_data = Fields "jsval list" | EventObj jsval | Null

record frame_ready =
  frameValid :: bool
  frame :: frame_data
  frameType :: string
  frameOffset :: int

text \<open>
  The directory under construction (\<open>intraIndex\<close>): \<open>minTime\<close> and \<open>maxTime\<close> start as
  \<open>false\<close> (\<open>None\<close>); \<open>hasEvent\<close> is an array with holes, which read as false;
  \<open>initialSlow\<close> is deleted (\<open>None\<close>) when the log defines no slow frame; \<open>stats\<close> is the
  empty array (\<open>None\<close>) until the parser's statistics replace it. The field \<open>times\<close> of
  the source is \<open>times'\<close>.
\<close>

record 'st intraIndex =
  times' :: "jsval list"
  offsets :: "int list"
  avgThrottle :: "jsval list"
  initialSlow :: "jsval list list option"
  hasEvent :: "bool list"
  minTime :: "jsval option"
  maxTime :: "jsval option"
  error :: string
  stats :: "'st option"

text \<open>The directory together with the local variables that the callback closes over.\<close>

record 'st subLogPass =
  intraIndex :: "'st intraIndex"
  iframeCount :: nat
  lastSlow :: "jsval list"
  sawEndMarker :: bool

definition FLIGHT_LOG_FIELD_INDEX_TIME :: nat where
  "FLIGHT_LOG_FIELD_INDEX_TIME = 1"

text \<open>\<open>frame[i]\<close>, \<open>frame.event\<close> and \<open>frame.slice(0)\<close>; \<open>None\<close> is the TypeError.\<close>

definition frame_get :: "frame_data \<Rightarrow> nat \<Rightarrow> jsval option" where
  "frame_get f i =
     (case f of Fields xs \<Rightarrow> Some (if i < length xs then xs ! i else Undefined)
      | EventObj e \<Rightarrow> Some Undefined
      | Null \<Rightarrow> None)"

definition frame_event :: "frame_data \<Rightarrow> jsval option" where
  "frame_event f =
     (case f of Fields xs \<Rightarrow> Some Undefined | EventObj e \<Rightarrow> Some e | Null \<Rightarrow> None)"

definition frame_slice :: "frame_data \<Rightarrow> jsval list option" where
  "frame_slice f = (case f of Fields xs \<Rightarrow> Some xs | _ \<Rightarrow> None)"

text \<open>
  \<open>+\<close> on a number and a field of the frame, and \<open>Math.round(total / count)\<close>: a sum with
  \<open>undefined\<close> is \<open>NaN\<close>; rounding is to the nearest integer, halves upwards. The quotient
  of two integers of this size is rounded as the exact quotient is.
\<close>

definition js_add :: "jsval \<Rightarrow> jsval \<Rightarrow> jsval" where
  "js_add a b = (case (a, b) of (Num x, Num y) \<Rightarrow> Num (x + y) | _ \<Rightarrow> NaN)"

definition round_div :: "jsval \<Rightarrow> nat \<Rightarrow> jsval" where
  "round_div throttleTotal n =
     (case throttleTotal of Num t \<Rightarrow> Num ((2 * t + int n) div (2 * int n)) | _ \<Rightarrow> NaN)"

definition flag_set :: "bool list \<Rightarrow> nat \<Rightarrow> bool list" where
  "flag_set xs i =
     (if i < length xs then xs[i := True] else xs @ replicate (i - length xs) False @ [True])"

text \<open>
  The callback \<open>parser.onFrameReady\<close>. It returns the new state and the value thrown, if
  any. \<open>LOG_END\<close> is \<open>FlightLogEvent.LOG_END\<close>, a constant of a file that is not among the
  sources. Where the motor fields are summed the frame is not \<open>null\<close>, since \<open>frame[1]\<close> has
  been read.
\<close>

definition onFrameReady ::
  "int \<Rightarrow> string \<Rightarrow> nat list \<Rightarrow> 'st subLogPass \<Rightarrow> frame_ready \<Rightarrow> 'st subLogPass \<times> string option" where
  "onFrameReady LOG_END typeErrorText motorFields p fr =
     (if \<not> frameValid fr then (p, None)
      else if frameType fr = ''P'' \<or> frameType fr = ''I'' then
        (case frame_get (frame fr) FLIGHT_LOG_FIELD_INDEX_TIME of
           None \<Rightarrow> (p, Some typeErrorText)
         | Some frameTime \<Rightarrow>
             (let ix = intraIndex p;
                  ix1 = (if minTime ix = None then ix\<lparr>minTime := Some frameTime\<rparr> else ix);
                  ix2 = (if (case maxTime ix1 of None \<Rightarrow> True | Some m \<Rightarrow> js_lt m frameTime)
                         then ix1\<lparr>maxTime := Some frameTime\<rparr> else ix1)
              in if frameType fr = ''I'' then
                   (let ix3 =
                      (if iframeCount p mod 4 = 0 then
                         (let ix2a = ix2\<lparr>times' := times' ix2 @ [frameTime],
                                          offsets := offsets ix2 @ [frameOffset fr]\<rparr>;
                              ix2b =
                                (if motorFields \<noteq> [] then
                                   (let throttleTotal =
                                          foldl (\<lambda>total' motorField.
                                                   js_add total' (the (frame_get (frame fr) motorField)))
                                            (Num 0) motorFields
                                    in ix2a\<lparr>avgThrottle := avgThrottle ix2a
                                              @ [round_div throttleTotal (length motorFields)]\<rparr>)
                                 else ix2a)
                          in ix2b\<lparr>initialSlow :=
                                     map_option (\<lambda>xs. xs @ [lastSlow p]) (initialSlow ix2b)\<rparr>)
                       else ix2)
                    in (p\<lparr>intraIndex := ix3, iframeCount := iframeCount p + 1\<rparr>, None))
                 else (p\<lparr>intraIndex := ix2\<rparr>, None)))
      else if frameType fr = ''E'' then
        (let ix = intraIndex p;
             ix1 = (if length (times' ix) > 0
                    then ix\<lparr>hasEvent := flag_set (hasEvent ix) (length (times' ix) - 1)\<rparr>
                    else ix);
             p1 = p\<lparr>intraIndex := ix1\<rparr>
         in case frame_event (frame fr) of
              None \<Rightarrow> (p1, Some typeErrorText)
            | Some ev \<Rightarrow>
                (if js_eq ev (Num LOG_END) then (p1\<lparr>sawEndMarker := True\<rparr>, None)
                 else (p1, None)))
      else if frameType fr = ''S'' then
        (case frame_slice (frame fr) of
           None \<Rightarrow> (p, Some typeErrorText)
         | Some xs \<Rightarrow> (p\<lparr>lastSlow := xs\<rparr>, None))
      else (p, None))"

text \<open>
  \<open>parseLogData\<close> as the listener sees it: the calls in order, ended by the first one that
  throws.
\<close>

fun run_callbacks ::
  "int \<Rightarrow> string \<Rightarrow> nat list \<Rightarrow> 'st subLogPass \<Rightarrow> frame_ready list \<Rightarrow> 'st subLogPass \<times> string option" where
  "run_callbacks LOG_END typeErrorText motorFields p [] = (p, None)"
| "run_callbacks LOG_END typeErrorText motorFields p (fr # frs) =
     (case onFrameReady LOG_END typeErrorText motorFields p fr of
        (p1, Some e) \<Rightarrow> (p1, Some e)
      | (p1, None) \<Rightarrow> run_callbacks LOG_END typeErrorText motorFields p1 frs)"

definition motor_names :: "string list" where
  "motor_names = [''motor[0]'', ''motor[1]'', ''motor[2]'', ''motor[3]'',
                  ''motor[4]'', ''motor[5]'', ''motor[6]'', ''motor[7]'']"

text \<open>
  What \<open>parseHeader\<close> leaves when it returns, as far as \<open>_parseSubLog\<close> reads it:
  \<open>frameDefs.I.nameToIndex\<close> and whether \<open>frameDefs.S\<close> exists.
\<close>

record frameDefs =
  nameToIndex_I :: "string \<rightharpoonup> nat"
  has_S :: bool

definition initial_intraIndex :: "'st intraIndex" where
  "initial_intraIndex =
     \<lparr>times' = [], offsets = [], avgThrottle = [], initialSlow = Some [], hasEvent = [],
      minTime = None, maxTime = None, error = [], stats = None\<rparr>"

text \<open>
  \<open>index_pass\<close> is \<open>_parseSubLog\<close> up to its last \<open>if\<close>: the two \<open>try\<close> blocks, the
  deletion of \<open>initialSlow\<close> and the copy of the statistics. \<open>parseSubLog\<close> adds the
  last \<open>if\<close>, which appends to \<open>error\<close>.
\<close>

definition index_pass ::
  "int \<Rightarrow> string \<Rightarrow> string + frameDefs \<Rightarrow> frame_ready list \<Rightarrow> string option \<Rightarrow> 'st
     \<Rightarrow> 'st subLogPass" where
  "index_pass LOG_END typeErrorText header callbacks logDataThrown parserStats =
     (let p0 = \<lparr>intraIndex = initial_intraIndex, iframeCount = 0, lastSlow = [],
                 sawEndMarker = False\<rparr>
      in case header of
           Inl e \<Rightarrow> p0\<lparr>intraIndex := (intraIndex p0)\<lparr>error := e\<rparr>\<rparr>
         | Inr defs \<Rightarrow>
             (let motorFields = List.map_filter (nameToIndex_I defs) motor_names;
                  (p1, thrown) = run_callbacks LOG_END typeErrorText motorFields p0 callbacks;
                  caught = (case thrown of Some e \<Rightarrow> Some e | None \<Rightarrow> logDataThrown);
                  ix1 = (case caught of Some e \<Rightarrow> (intraIndex p1)\<lparr>error := e\<rparr>
                         | None \<Rightarrow> intraIndex p1);
                  ix2 = (if \<not> has_S defs then ix1\<lparr>initialSlow := None\<rparr> else ix1);
                  ix3 = ix2\<lparr>stats := Some parserStats\<rparr>
              in p1\<lparr>intraIndex := ix3\<rparr>))"

definition parseSubLog ::
  "int \<Rightarrow> string \<Rightarrow> string + frameDefs \<Rightarrow> frame_ready list \<Rightarrow> string option \<Rightarrow> 'st
     \<Rightarrow> 'st intraIndex" where
  "parseSubLog LOG_END typeErrorText header callbacks logDataThrown parserStats =
     (let p = index_pass LOG_END typeErrorText header callbacks logDataThrown parserStats;
          ix = intraIndex p
      in if minTime ix = None then
           (if sawEndMarker p then ix\<lparr>error := error ix @ '': Logging paused, no data''\<rparr>
            else ix\<lparr>error := error ix @ '': Log truncated, no data''\<rparr>)
         else ix)"

subsection \<open>The diagnostics of an empty sub-log\<close>

text \<open>
  What the listener has been told: a valid main frame, a valid \<open>LOG_END\<close> event. A call is
  well formed when it is one the parser makes: a valid \<open>I\<close>, \<open>P\<close> or \<open>S\<close> frame carries an
  array, a valid \<open>E\<close> frame an event object, and no other frame type is reported valid.
\<close>

definition is_valid_main :: "frame_ready \<Rightarrow> bool" where
  "is_valid_main fr = (frameValid fr \<and> (frameType fr = ''P'' \<or> frameType fr = ''I''))"

definition is_log_end :: "int \<Rightarrow> frame_ready \<Rightarrow> bool" where
  "is_log_end LOG_END fr =
     (frameValid fr \<and> frameType fr = ''E'' \<and> frame fr = EventObj (Num LOG_END))"

definition well_formed :: "frame_ready \<Rightarrow> bool" where
  "well_formed fr =
     (frameValid fr \<longrightarrow>
        (case frame fr of
           Fields xs \<Rightarrow> frameType fr = ''I'' \<or> frameType fr = ''P'' \<or> frameType fr = ''S''
         | EventObj e \<Rightarrow> frameType fr = ''E''
         | Null \<Rightarrow> False))"

lemma onFrameReady_step:
  assumes "well_formed fr"
  shows "snd (onFrameReady LOG_END typeErrorText motorFields p fr) = None"
    and "(minTime (intraIndex (fst (onFrameReady LOG_END typeErrorText motorFields p fr))) = None)
           = (minTime (intraIndex p) = None \<and> \<not> is_valid_main fr)"
    and "sawEndMarker (fst (onFrameReady LOG_END typeErrorText motorFields p fr))
           = (sawEndMarker p \<or> is_log_end LOG_END fr)"
    and "error (intraIndex (fst (onFrameReady LOG_END typeErrorText motorFields p fr)))
           = error (intraIndex p)"
proof -
  let ?P = "\<lambda>r. snd r = None
     \<and> (minTime (intraIndex (fst r)) = None) = (minTime (intraIndex p) = None \<and> \<not> is_valid_main fr)
     \<and> sawEndMarker (fst r) = (sawEndMarker p \<or> is_log_end LOG_END fr)
     \<and> error (intraIndex (fst r)) = error (intraIndex p)"
  have "?P (onFrameReady LOG_END typeErrorText motorFields p fr)"
  proof (cases "frameValid fr")
    case False
    then show ?thesis by (simp add: onFrameReady_def is_valid_main_def is_log_end_def)
  next
    case valid: True
    show ?thesis
    proof (cases "frame fr")
      case Null
      with assms valid show ?thesis by (simp add: well_formed_def)
    next
      case (EventObj e)
      with assms valid have ty: "frameType fr = ''E''" by (simp add: well_formed_def)
      show ?thesis
        using valid ty EventObj
        by (simp add: onFrameReady_def is_valid_main_def is_log_end_def frame_event_def Let_def
              js_eq_Num)
    next
      case (Fields xs)
      with assms valid consider (I) "frameType fr = ''I''" | (P) "frameType fr = ''P''"
        | (S) "frameType fr = ''S''"
        by (auto simp: well_formed_def)
      then show ?thesis
      proof cases
        case I
        then show ?thesis
          using valid Fields
          by (simp add: onFrameReady_def is_valid_main_def is_log_end_def frame_get_def Let_def)
      next
        case P
        then show ?thesis
          using valid Fields
          by (simp add: onFrameReady_def is_valid_main_def is_log_end_def frame_get_def Let_def)
      next
        case S
        then show ?thesis
          using valid Fields
          by (simp add: onFrameReady_def is_valid_main_def is_log_end_def frame_slice_def Let_def)
      qed
    qed
  qed
  then show "snd (onFrameReady LOG_END typeErrorText motorFields p fr) = None"
    and "(minTime (intraIndex (fst (onFrameReady LOG_END typeErrorText motorFields p fr))) = None)
           = (minTime (intraIndex p) = None \<and> \<not> is_valid_main fr)"
    and "sawEndMarker (fst (onFrameReady LOG_END typeErrorText motorFields p fr))
           = (sawEndMarker p \<or> is_log_end LOG_END fr)"
    and "error (intraIndex (fst (onFrameReady LOG_END typeErrorText motorFields p fr)))
           = error (intraIndex p)"
    by simp_all
qed

lemma run_callbacks_Cons:
  "snd (onFrameReady LOG_END typeErrorText motorFields p fr) = None \<Longrightarrow>
   run_callbacks LOG_END typeErrorText motorFields p (fr # frs)
     = run_callbacks LOG_END typeErrorText motorFields
         (fst (onFrameReady LOG_END typeErrorText motorFields p fr)) frs"
  by (cases "onFrameReady LOG_END typeErrorText motorFields p fr") simp

lemma run_callbacks_summary:
  "\<forall>fr\<in>set callbacks. well_formed fr \<Longrightarrow>
   snd (run_callbacks LOG_END typeErrorText motorFields p callbacks) = None
   \<and> (minTime (intraIndex (fst (run_callbacks LOG_END typeErrorText motorFields p callbacks))) = None)
       = (minTime (intraIndex p) = None \<and> \<not> (\<exists>fr\<in>set callbacks. is_valid_main fr))
   \<and> sawEndMarker (fst (run_callbacks LOG_END typeErrorText motorFields p callbacks))
       = (sawEndMarker p \<or> (\<exists>fr\<in>set callbacks. is_log_end LOG_END fr))
   \<and> error (intraIndex (fst (run_callbacks LOG_END typeErrorText motorFields p callbacks)))
       = error (intraIndex p)"
proof (induction callbacks arbitrary: p)
  case Nil
  show ?case by simp
next
  case (Cons fr frs)
  from Cons.prems have wf: "well_formed fr" and rest: "\<forall>fr\<in>set frs. well_formed fr" by simp_all
  note st = onFrameReady_step [OF wf, of LOG_END typeErrorText motorFields p]
  note ih = Cons.IH [OF rest, of "fst (onFrameReady LOG_END typeErrorText motorFields p fr)"]
  show ?case
    unfolding run_callbacks_Cons [OF st(1)]
    using ih st(2,3,4) by auto
qed

text \<open>
  Claim C9, as the code has it. The suffix is appended to the error that the pass has
  recorded: the text thrown by \<open>parseHeader\<close>, after which nothing is parsed and the suffix
  is \<open>: Log truncated, no data\<close>, or the text thrown by \<open>parseLogData\<close>, or nothing. After
  a header that parsed and the calls the parser makes, \<open>minTime\<close> is unset exactly when
  no valid main frame was reported; then the suffix is \<open>: Logging paused, no data\<close> if a
  valid \<open>LOG_END\<close> event was reported and \<open>: Log truncated, no data\<close> otherwise; when a
  valid main frame was reported nothing is appended.
\<close>

theorem parseSubLog_error:
  "error (parseSubLog LOG_END typeErrorText (Inl e) callbacks logDataThrown parserStats)
     = e @ '': Log truncated, no data''
   \<and> ((\<forall>fr\<in>set callbacks. well_formed fr) \<longrightarrow>
        (minTime (parseSubLog LOG_END typeErrorText (Inr defs) callbacks logDataThrown parserStats) = None)
          = (\<not> (\<exists>fr\<in>set callbacks. is_valid_main fr))
        \<and> error (parseSubLog LOG_END typeErrorText (Inr defs) callbacks logDataThrown parserStats)
          = (case logDataThrown of Some e' \<Rightarrow> e' | None \<Rightarrow> [])
            @ (if \<exists>fr\<in>set callbacks. is_valid_main fr then []
               else if \<exists>fr\<in>set callbacks. is_log_end LOG_END fr then '': Logging paused, no data''
               else '': Log truncated, no data''))"
proof (intro conjI impI)
  show "error (parseSubLog LOG_END typeErrorText (Inl e) callbacks logDataThrown parserStats)
     = e @ '': Log truncated, no data''"
    by (simp add: parseSubLog_def index_pass_def initial_intraIndex_def Let_def)
next
  assume wf: "\<forall>fr\<in>set callbacks. well_formed fr"
  let ?p0 = "\<lparr>intraIndex = initial_intraIndex, iframeCount = 0, lastSlow = [],
               sawEndMarker = False\<rparr> :: 'a subLogPass"
  let ?mf = "List.map_filter (nameToIndex_I defs) motor_names"
  define p1 where "p1 = fst (run_callbacks LOG_END typeErrorText ?mf ?p0 callbacks)"
  from run_callbacks_summary [OF wf, of LOG_END typeErrorText ?mf ?p0]
  have p1:
    "run_callbacks LOG_END typeErrorText ?mf ?p0 callbacks = (p1, None)"
    "(minTime (intraIndex p1) = None) = (\<not> (\<exists>fr\<in>set callbacks. is_valid_main fr))"
    "sawEndMarker p1 = (\<exists>fr\<in>set callbacks. is_log_end LOG_END fr)"
    "error (intraIndex p1) = []"
    unfolding p1_def by (simp_all add: initial_intraIndex_def prod_eq_iff)
  let ?p = "index_pass LOG_END typeErrorText (Inr defs) callbacks logDataThrown parserStats"
  have m: "minTime (intraIndex ?p) = minTime (intraIndex p1)"
    and s: "sawEndMarker ?p = sawEndMarker p1"
    and e: "error (intraIndex ?p) = (case logDataThrown of Some e' \<Rightarrow> e' | None \<Rightarrow> [])"
    using p1(1,4) by (simp_all add: index_pass_def Let_def split: option.splits)
  show "(minTime (parseSubLog LOG_END typeErrorText (Inr defs) callbacks logDataThrown parserStats) = None)
          = (\<not> (\<exists>fr\<in>set callbacks. is_valid_main fr))"
    using m p1(2) by (simp add: parseSubLog_def Let_def)
  show "error (parseSubLog LOG_END typeErrorText (Inr defs) callbacks logDataThrown parserStats)
          = (case logDataThrown of Some e' \<Rightarrow> e' | None \<Rightarrow> [])
            @ (if \<exists>fr\<in>set callbacks. is_valid_main fr then []
               else if \<exists>fr\<in>set callbacks. is_log_end LOG_END fr then '': Logging paused, no data''
               else '': Log truncated, no data'')"
    using m s e p1(2,3) by (simp add: parseSubLog_def Let_def)
qed

theorem parseSubLog_error_witness:
  "error (parseSubLog 255 ''TypeError'' (Inr \<lparr>nameToIndex_I = Map.empty, has_S = False\<rparr>)
       [\<lparr>frameValid = False, frame = Null, frameType = ''I'', frameOffset = 5\<rparr>,
        \<lparr>frameValid = True, frame = EventObj (Num 255), frameType = ''E'', frameOffset = 9\<rparr>]
       None ())
     = '': Logging paused, no data''"
proof -
  let ?cbs = "[\<lparr>frameValid = False, frame = Null, frameType = ''I'', frameOffset = 5\<rparr>,
        \<lparr>frameValid = True, frame = EventObj (Num 255), frameType = ''E'', frameOffset = 9\<rparr>]"
  have wf: "\<forall>fr\<in>set ?cbs. well_formed fr" by (simp add: well_formed_def)
  have a: "\<not> (\<exists>fr\<in>set ?cbs. is_valid_main fr)" by (simp add: is_valid_main_def)
  have b: "\<exists>fr\<in>set ?cbs. is_log_end 255 fr" by (simp add: is_log_end_def)
  from parseSubLog_error [of 255 "''TypeError''" "[]" ?cbs None "()" "\<lparr>nameToIndex_I = Map.empty, has_S = False\<rparr>"]
    wf a b
  show ?thesis by simp
qed

text \<open>
  Claim C9 as stated, that the error becomes the suffix itself, fails when an exception
  was caught before: the suffix follows the text of the exception.
\<close>

theorem parseSubLog_error_keeps_exception:
  "minTime (parseSubLog 255 ''TypeError''
       (Inl ''Log is missing required definitions for I frames, header may be corrupt'')
       [] None ()) = None
   \<and> error (parseSubLog 255 ''TypeError''
       (Inl ''Log is missing required definitions for I frames, header may be corrupt'')
       [] None ())
     = ''Log is missing required definitions for I frames, header may be corrupt: Log truncated, no data''
   \<and> error (parseSubLog 255 ''TypeError''
       (Inl ''Log is missing required definitions for I frames, header may be corrupt'')
       [] None ())
     \<noteq> '': Log truncated, no data''"
  by (simp add: parseSubLog_def index_pass_def initial_intraIndex_def Let_def)

section \<open>Comma-separated header values (utils/Utils.ts)\<close>

text \<open>
  \<open>parseFloat\<close> and \<open>parseInt(_, 10)\<close> are built-ins of the language: they are parameters
  \<open>pf\<close> and \<open>pi\<close>, giving a number or \<open>None\<close> for \<open>NaN\<close>. Strings are the header's
  bytes. \<open>split_comma\<close> is \<open>string.split(",")\<close>, \<open>join_comma\<close> the conversion of an array
  of strings to a string, and \<open>indexOf\<close> gives -1 when the element is absent.
\<close>

datatype 'n csv_value = NumV 'n | StrV string | NullV

datatype 'n csv_result = Scalar "'n csv_value" | Array "'n csv_value list"

fun split_comma :: "string \<Rightarrow> string list" where
  "split_comma [] = [[]]"
| "split_comma (c # cs) =
     (if c = CHR '','' then [] # split_comma cs
      else (case split_comma cs of [] \<Rightarrow> [[c]] | p # ps \<Rightarrow> (c # p) # ps))"

fun join_comma :: "string list \<Rightarrow> string" where
  "join_comma [] = []"
| "join_comma [p] = p"
| "join_comma (p # ps) = p @ '','' @ join_comma ps"

fun indexOf :: "'a \<Rightarrow> 'a list \<Rightarrow> int" where
  "indexOf x [] = - 1"
| "indexOf x (y # ys) =
     (if y = x then 0 else (let r = indexOf x ys in if r = - 1 then - 1 else r + 1))"

text \<open>
  The test \<open>parts[i].indexOf(".") ? parseFloat(parts[i]) : parseInt(parts[i], 10)\<close>, and
  \<open>isNaN(value) ? parts[i] : value\<close>: an index is false only when it is 0.
\<close>

definition coerce_part :: "(string \<Rightarrow> 'n option) \<Rightarrow> (string \<Rightarrow> 'n option) \<Rightarrow> string \<Rightarrow> 'n csv_value" where
  "coerce_part pf pi part =
     (let value = (if indexOf CHR ''.'' part \<noteq> 0 then pf part else pi part)
      in case value of None \<Rightarrow> StrV part | Some v \<Rightarrow> NumV v)"

text \<open>
  \<open>parseCommaSeparatedString(string, length)\<close>, \<open>length\<close> being 0 when the argument is
  left out. A length of 2^32 or more makes \<open>new Array(length)\<close> raise a RangeError. The
  \<open>for\<close> loop fills the slots \<open>0 .. length - 1\<close> in order, each from its own index.
\<close>

definition parseCommaSeparatedString ::
  "(string \<Rightarrow> 'n option) \<Rightarrow> (string \<Rightarrow> 'n option) \<Rightarrow> string \<Rightarrow> int \<Rightarrow> error + 'n csv_result" where
  "parseCommaSeparatedString pf pi string len =
     (let parts = split_comma string;
          len1 = (if len = 0 then int (length parts) else len)
      in if len1 < 2 then
           (let value = (if indexOf ''.'' parts \<noteq> 0 then pf (join_comma parts)
                         else pi (join_comma parts))
            in Inr (Scalar (case value of None \<Rightarrow> StrV string | Some v \<Rightarrow> NumV v)))
         else if 2 ^ 32 \<le> len1 then Inl RangeError
         else Inr (Array (map (\<lambda>i. if i < length parts then coerce_part pf pi (parts ! i) else NullV)
                            [0..<nat len1])))"

text \<open>
  The coercion that the specification describes, written from its words for comparison:
  a float if the part contains \<open>.\<close>, else an integer, and the part itself when the
  coercion fails.
\<close>

definition spec_coerce_part :: "(string \<Rightarrow> 'n option) \<Rightarrow> (string \<Rightarrow> 'n option) \<Rightarrow> string \<Rightarrow> 'n csv_value" where
  "spec_coerce_part pf pi part =
     (let value = (if CHR ''.'' \<in> set part then pf part else pi part)
      in case value of None \<Rightarrow> StrV part | Some v \<Rightarrow> NumV v)"

lemma split_comma_nonempty: "split_comma s \<noteq> []"
  by (induction s) (auto split: list.splits)

lemma parseCommaSeparatedString_array:
  assumes "2 \<le> n" "n < 2 ^ 32"
  shows "\<exists>entries. parseCommaSeparatedString pf pi string n = Inr (Array entries)
     \<and> int (length entries) = n
     \<and> (\<forall>i<length entries. entries ! i =
           (if i < length (split_comma string) then coerce_part pf pi (split_comma string ! i)
            else NullV))"
  using assms by (simp add: parseCommaSeparatedString_def Let_def)

text \<open>
  Claim C7 against the code. On \<open>.5,1\<close> with a length of 2, the part \<open>.5\<close>, which
  contains a \<open>.\<close>, is given to \<open>parseInt\<close>, and the part \<open>1\<close>, which contains none, to
  \<open>parseFloat\<close>: the reverse of what the claim says, whatever the two built-ins return.
  (\<open>parseInt(".5", 10)\<close> is \<open>NaN\<close>, so the entry is the string \<open>.5\<close>, not 0.5.)
\<close>

theorem parseCommaSeparatedString_dispatch:
  "parseCommaSeparatedString pf pi ''.5,1'' 2
     = Inr (Array [case pi ''.5'' of None \<Rightarrow> StrV ''.5'' | Some v \<Rightarrow> NumV v,
                   case pf ''1'' of None \<Rightarrow> StrV ''1'' | Some v \<Rightarrow> NumV v])
   \<and> map (spec_coerce_part pf pi) (split_comma ''.5,1'')
     = [case pf ''.5'' of None \<Rightarrow> StrV ''.5'' | Some v \<Rightarrow> NumV v,
        case pi ''1'' of None \<Rightarrow> StrV ''1'' | Some v \<Rightarrow> NumV v]"
proof -
  have u: "[0..<2] = [0, Suc 0]" by code_simp
  show ?thesis
    by (simp add: parseCommaSeparatedString_def coerce_part_def spec_coerce_part_def Let_def u)
qed

section \<open>Opening a sub-log (FlightLog.ts)\<close>

text \<open>
  The facade \<open>FlightLog\<close> is made from the log buffer; it makes an index
  (\<open>FlightLogIndex\<close>) and a parser from that buffer, and the index makes a parser of its
  own from it. (The class \<open>FlightLogParser\<close> stands in the file \<open>GraphConfig.ts\<close> of the
  sources, after the class of that name.) Of the state that a parser holds after \<open>parseHeader\<close>
  the facade reads the names of the \<open>I\<close> and \<open>S\<close> fields (\<open>frameDefs.S\<close> may be absent)
  and \<open>sysConfig\<close>, of which \<open>fields_disabled_mask\<close> (\<open>null\<close> or the result of \<open>parseInt\<close>;
  \<open>null\<close> is 0 under \<open>&\<close>, as \<open>undefined\<close> is), \<open>firmwareType\<close> (a number) and
  \<open>firmwareVersion\<close> (a text, or \<open>undefined\<close> when the header has no firmware revision
  from which one is made) are fields here; the field \<open>sysConfig\<close> is the rest.
\<close>

record 'c parser_state =
  I_name :: "string list"
  S_name :: "string list option"
  fields_disabled_mask :: jsval
  firmwareType :: int
  firmwareVersion :: "string option"
  sysConfig :: 'c

text \<open>
  The facade's own fields; \<open>_allChunks\<close> is \<open>allChunks_cache\<close>, \<open>None\<close> for \<open>null\<close>.
  \<open>logBeginOffsets\<close> is the array that the index computes from the buffer with
  \<open>allIndicesOf\<close>: the offsets of the sub-logs and the end of the buffer. The directories
  of the index are computed from it below.
\<close>

record ('st, 'c, 'ch) FlightLog =
  logIndex :: int
  iframeDirectory :: "'st intraIndex option"
  parser :: "'c parser_state"
  allChunks_cache :: "'ch option"
  fieldNames :: "string list"
  fieldNameToIndex :: "string \<rightharpoonup> nat"
  numCells :: nat
  numMotors :: nat
  logBeginOffsets :: "int list"

datatype 'a outcome = Returned 'a | Threw string

text \<open>
  What \<open>parseLogData\<close> does in the index pass of one sub-log, as its listener sees it: the
  calls of \<open>onFrameReady\<close>, the text it throws at the end, if any, and the statistics it
  leaves.
\<close>

record 'st logData_run =
  run_calls :: "frame_ready list"
  run_thrown :: "string option"
  run_stats :: 'st

text \<open>
  What the facade and the index take from outside themselves.

  \<^item> \<open>MAX_MOTOR_NUMBER\<close>, \<open>LOG_END\<close> (\<open>FlightLogEvent.LOG_END\<close>) and the two firmware
    types are constants of files that are not among the sources.
  \<^item> \<open>typeErrorText\<close> is the text of the engine's TypeError.
  \<^item> \<open>parseHeader\<close> is the parser's method. It begins with \<open>_resetAllState\<close> and
    \<open>_setStreamRange\<close>, so with two offsets of \<open>logBeginOffsets\<close> what it throws, if
    anything, and the state it leaves are a function of the buffer and of the two offsets:
    the same for the parser of the index and for the parser of the facade. (It is called
    with such offsets only: see \<open>openLog\<close>.)
  \<^item> \<open>parseLogData\<close> is what the parser of the index does with the data of sub-log \<open>i\<close>.
  \<^item> \<open>semverGte v1 v2\<close> is \<open>new SemVer(v1).compare(v2) >= 0\<close>, made by a library whose
    constructor throws on what is not a version, as \<open>undefined\<close> is: it gives the boolean
    or the text thrown.
  \<^item> \<open>refVoltageAtLeast\<close> is the floating-point test
    \<open>refVoltage >= i * sysConfig.vbatmaxcellvoltage\<close> of \<open>_estimateNumCells\<close>, as a
    function of the parser's state, of the outcome of the version test that selects
    \<open>refVoltage\<close>, and of \<open>i\<close>.
\<close>

record ('st, 'c) environment =
  MAX_MOTOR_NUMBER :: nat
  LOG_END :: int
  FIRMWARE_TYPE_BETAFLIGHT :: int
  FIRMWARE_TYPE_CLEANFLIGHT :: int
  typeErrorText :: string
  parseHeader :: "jsval \<Rightarrow> jsval \<Rightarrow> string option \<times> 'c parser_state"
  parseLogData :: "nat \<Rightarrow> 'st logData_run"
  semverGte :: "string option \<Rightarrow> string \<Rightarrow> bool outcome"
  refVoltageAtLeast :: "'c parser_state \<Rightarrow> bool \<Rightarrow> nat \<Rightarrow> bool"








text \<open>
  The maps from a field name to its index are plain objects, filled by
  \<open>object[names[i]] = i\<close> for \<open>i\<close> from 0 on: the assignment stores a property of the
  object, a later index replacing an earlier one of the same name, except for the name
  \<open>__proto__\<close>, whose setter ignores a number, so that nothing is stored. The names looked
  up below (\<open>vbatLatest\<close>, \<open>motor[j]\<close>) are no properties of \<open>Object.prototype\<close>: their
  lookup gives the property stored, or \<open>undefined\<close>. \<open>mapFieldNamesToIndex\<close> is the
  parser's function, which makes \<open>frameDefs.I.nameToIndex\<close> from \<open>frameDefs.I.name\<close>;
  \<open>build_fieldNameToIndex\<close> is the loop at the end of \<open>_buildFieldNames\<close>.
\<close>

definition object_set :: "(string \<rightharpoonup> nat) \<Rightarrow> string \<Rightarrow> nat \<Rightarrow> (string \<rightharpoonup> nat)" where
  "object_set object name i = (if name = ''__proto__'' then object else object(name \<mapsto> i))"

definition mapFieldNamesToIndex :: "string list \<Rightarrow> (string \<rightharpoonup> nat)" where
  "mapFieldNamesToIndex fieldNames' =
     fold (\<lambda>i result. object_set result (fieldNames' ! i) i) [0..<length fieldNames'] Map.empty"







subsection \<open>The index of the facade (FlightLogIndex.ts)\<close>

text \<open>
  \<open>getLogCount()\<close> and \<open>getLogBeginOffset(index)\<close>; an array read outside the array gives
  \<open>undefined\<close>.
\<close>

definition getLogCount :: "('st, 'c, 'ch) FlightLog \<Rightarrow> int" where
  "getLogCount fl = int (length (logBeginOffsets fl)) - 1"

definition getLogBeginOffset :: "('st, 'c, 'ch) FlightLog \<Rightarrow> int \<Rightarrow> jsval" where
  "getLogBeginOffset fl index =
     (if 0 \<le> index \<and> index < int (length (logBeginOffsets fl))
      then Num (logBeginOffsets fl ! nat index) else Undefined)"

text \<open>
  What \<open>_parseSubLog\<close> reads of the parser after a header that parsed. A frame
  definition is made with an empty \<open>name\<close> and an empty \<open>nameToIndex\<close>, and the two are
  replaced together, the second by \<open>mapFieldNamesToIndex\<close> of the first.
\<close>

definition frameDefs_of :: "'c parser_state \<Rightarrow> frameDefs" where
  "frameDefs_of ps =
     \<lparr>nameToIndex_I = mapFieldNamesToIndex (I_name ps), has_S = (S_name ps \<noteq> None)\<rparr>"

text \<open>
  \<open>_buildIntraframeDirectories\<close>: for each \<open>i\<close> below \<open>getLogCount()\<close>, the directory that
  \<open>_parseSubLog\<close> makes of sub-log \<open>i\<close>, whose header lies between
  \<open>logBeginOffsets[i]\<close> and \<open>logBeginOffsets[i + 1]\<close>. The index builds the directories
  when they are first asked for and keeps them; they depend on the buffer alone.
\<close>

definition buildIntraframeDirectories ::
  "('st, 'c) environment \<Rightarrow> ('st, 'c, 'ch) FlightLog \<Rightarrow> 'st intraIndex list" where
  "buildIntraframeDirectories env fl =
     map (\<lambda>i. let (headerThrown, ps) =
                     parseHeader env (getLogBeginOffset fl (int i)) (getLogBeginOffset fl (int i + 1));
                   run = parseLogData env i
               in parseSubLog (LOG_END env) (typeErrorText env)
                    (case headerThrown of Some e \<Rightarrow> Inl e | None \<Rightarrow> Inr (frameDefs_of ps))
                    (run_calls run) (run_thrown run) (run_stats run))
       [0..<nat (getLogCount fl)]"



subsection \<open>openLog\<close>





lemma getLogBeginOffset_update [simp]:
  "getLogBeginOffset (fl\<lparr>logIndex := i\<rparr>) k = getLogBeginOffset fl k"
  "getLogBeginOffset (fl\<lparr>iframeDirectory := d\<rparr>) k = getLogBeginOffset fl k"
  by (simp_all add: getLogBeginOffset_def)

lemma buildIntraframeDirectories_update [simp]:
  "buildIntraframeDirectories env (fl\<lparr>logIndex := i\<rparr>) = buildIntraframeDirectories env fl"
  by (simp add: buildIntraframeDirectories_def getLogCount_def)








end
